theory Spec2Isabelle
  imports Main "HOL-Library.Multiset"
begin

section \<open>The collector graph of gc.cpp\<close>

text \<open>
  Addresses (\<^verbatim>\<open>std::byte*\<close>, \<^verbatim>\<open>void*\<close>) are natural numbers, the null pointer is \<open>0\<close>.
  Pointer arithmetic that leaves the address space is undefined in the source, so
  \<^verbatim>\<open>bp + size\<close> is plain addition.
\<close>

type_synonym addr = nat

subsection \<open>Data\<close>

text \<open>\<^verbatim>\<open>memory_range { begin, end }\<close>: an element of \<^verbatim>\<open>ranges\<close>.\<close>

record memory_range =
  range_begin :: addr
  range_end :: addr

text \<open>
  An element of \<^verbatim>\<open>rngs\<close>, built as \<^verbatim>\<open>{ r.begin, r.end, false, false }\<close>: the range with its
  two per-trace marks.
\<close>

record range_mark =
  rng_begin :: addr
  rng_end :: addr
  managed :: bool
  scanned :: bool

text \<open>
  \<^verbatim>\<open>scan_info { gp, range }\<close>: \<open>si_gp\<close> is the address of the slot (\<^verbatim>\<open>si.gp = &gp\<close>),
  \<open>si_range\<close> the position in \<^verbatim>\<open>rngs\<close> that \<^verbatim>\<open>si.range = &rngs[idx_r]\<close> points to.
\<close>

record scan_info =
  si_gp :: addr
  si_range :: nat

text \<open>
  Modelled from the spec: the slot types \<^verbatim>\<open>graph_ptr<void>\<close> and \<^verbatim>\<open>raw_graph_ptr<void>\<close> are
  declared in gc.h, which is not among the sources. An owning slot holds a strong
  reference (\<open>ptr\<close>, the member the sweep moves from; \<open>None\<close> is the null reference) and a
  cached address into its referent (\<open>gp_get\<close>, what \<^verbatim>\<open>get()\<close> returns); its conversion to
  bool says whether the reference is non-null. An observing slot holds only an address
  (\<open>raw_ptr\<close>, the member \<^verbatim>\<open>ptr\<close> of the source). \<open>gp_addr\<close> and \<open>rgp_addr\<close> are the addresses
  at which the slots themselves are stored.
\<close>

record 'o graph_ptr =
  gp_addr :: addr
  ptr :: "'o option"
  gp_get :: addr

record raw_graph_ptr =
  rgp_addr :: addr
  raw_ptr :: addr

text \<open>The members of \<^verbatim>\<open>graph\<close> that outlive a call.\<close>

record 'o graph =
  ranges :: "memory_range list"
  pointers :: "'o graph_ptr list"
  rawPointers :: "raw_graph_ptr list"
  collecting :: bool

text \<open>
  The four buffers \<^verbatim>\<open>rngs\<close>, \<^verbatim>\<open>info\<close>, \<^verbatim>\<open>scan\<close>, \<^verbatim>\<open>keep\<close> of one trace. They are members of
  \<^verbatim>\<open>graph\<close> too, but the constructor only reserves them and every pass clears them
  before it clears the flag, so a pass that gets past the guard finds them empty.
\<close>

record trace =
  rngs :: "range_mark list"
  info :: "scan_info list"
  scan :: "nat list"
  keep :: "nat list"

datatype error = Assertion_failed | Out_of_bounds

subsection \<open>The address-interval index\<close>

text \<open>
  \<^verbatim>\<open>std::upper_bound\<close> with the comparison \<^verbatim>\<open>p < r.begin\<close>: the position of the first range
  whose begin is above \<open>bp\<close>, in a sequence that is sorted by begin (every index that
  \<^verbatim>\<open>add_range\<close> and \<^verbatim>\<open>remove_range\<close> build is, see \<open>run_ops_sorted\<close>).
\<close>

definition upper_bound :: "memory_range list \<Rightarrow> addr \<Rightarrow> nat" where
  "upper_bound rs bp = length (takeWhile (\<lambda>r. \<not> bp < range_begin r) rs)"

text \<open>\<^verbatim>\<open>graph::add_range\<close>, on the member \<^verbatim>\<open>ranges\<close>.\<close>

definition add_range :: "memory_range list \<Rightarrow> addr \<Rightarrow> nat \<Rightarrow> memory_range list" where
  "add_range rs bp sz =
     (let it = upper_bound rs bp
      in take it rs @ \<lparr>range_begin = bp, range_end = bp + sz\<rparr> # drop it rs)"

text \<open>
  \<^verbatim>\<open>graph::find_range_iterator\<close>: an iterator is its position, \<^verbatim>\<open>ranges.end()\<close> is
  \<open>length rs\<close>.
\<close>

definition find_range_iterator :: "memory_range list \<Rightarrow> addr \<Rightarrow> nat" where
  "find_range_iterator rs bp =
     (if bp \<noteq> 0 \<and> rs \<noteq> [] then
        (if range_begin (hd rs) \<le> bp \<and> bp \<le> range_end (last rs) then
           (let it = upper_bound rs bp
            in if it \<noteq> 0 then
                 (if range_begin (rs ! (it - 1)) \<le> bp \<and> bp \<le> range_end (rs ! (it - 1))
                  then it - 1 else length rs)
               else length rs)
         else length rs)
      else length rs)"

text \<open>\<^verbatim>\<open>graph::find_range\<close>.\<close>

definition find_range :: "memory_range list \<Rightarrow> addr \<Rightarrow> memory_range option" where
  "find_range rs internalPtr =
     (let it = find_range_iterator rs internalPtr
      in if it \<noteq> length rs then Some (rs ! it) else None)"

text \<open>
  \<^verbatim>\<open>graph::remove_range\<close>: the assertion is a result of its own; erasing at \<open>it\<close> drops that
  one element.
\<close>

definition remove_range :: "memory_range list \<Rightarrow> addr \<Rightarrow> error + memory_range list" where
  "remove_range rs p =
     (let it = find_range_iterator rs p
      in if it \<noteq> length rs then Inr (take it rs @ drop (Suc it) rs)
         else Inl Assertion_failed)"

text \<open>Calls on the index, run in order from a given index; a failed assertion ends the run.\<close>

datatype index_op = Add_range addr nat | Remove_range addr

fun run_ops :: "memory_range list \<Rightarrow> index_op list \<Rightarrow> error + memory_range list" where
  "run_ops rs [] = Inr rs"
| "run_ops rs (Add_range p n # ops) = run_ops (add_range rs p n) ops"
| "run_ops rs (Remove_range p # ops) =
     (case remove_range rs p of Inl e \<Rightarrow> Inl e | Inr rs' \<Rightarrow> run_ops rs' ops)"

text \<open>Two ranges are disjoint when their half-open intervals share no byte.\<close>

definition disjoint_ranges :: "memory_range \<Rightarrow> memory_range \<Rightarrow> bool" where
  "disjoint_ranges a b \<longleftrightarrow>
     {range_begin a ..< range_end a} \<inter> {range_begin b ..< range_end b} = {}"

text \<open>
  The callers' side of \<^verbatim>\<open>add_range\<close>: every range added is a range of the data model
  (\<open>end > begin\<close>) and disjoint from the ranges present when it is added.
\<close>

fun adds_disjoint :: "memory_range list \<Rightarrow> index_op list \<Rightarrow> bool" where
  "adds_disjoint rs [] = True"
| "adds_disjoint rs (Add_range p n # ops) =
     (0 < n \<and> list_all (disjoint_ranges \<lparr>range_begin = p, range_end = p + n\<rparr>) rs
      \<and> adds_disjoint (add_range rs p n) ops)"
| "adds_disjoint rs (Remove_range p # ops) =
     (case remove_range rs p of Inl e \<Rightarrow> True | Inr rs' \<Rightarrow> adds_disjoint rs' ops)"

text \<open>
  The invariants I1 and I2 of the index in one: each range is non-empty and ends no later
  than every range after it begins.
\<close>

definition index_ok :: "memory_range list \<Rightarrow> bool" where
  "index_ok rs \<longleftrightarrow>
     sorted_wrt (\<lambda>a b. range_end a \<le> range_begin b) rs
     \<and> list_all (\<lambda>r. range_begin r < range_end r) rs"

subsection \<open>The snapshot phase of \<^verbatim>\<open>collect_impl\<close>\<close>

text \<open>
  The lines both registry loops end with: the index of the new record is the size of
  \<^verbatim>\<open>info\<close> cut to 32 bits, the record is appended, and the index goes to \<^verbatim>\<open>keep\<close> when
  \<^verbatim>\<open>find_range(si.gp)\<close> is empty (\<^verbatim>\<open>isRoot\<close>) and to \<^verbatim>\<open>scan\<close> otherwise.
\<close>

definition push_info :: "memory_range list \<Rightarrow> trace \<Rightarrow> scan_info \<Rightarrow> trace" where
  "push_info rs tr si =
     (let idx = length (info tr) mod 4294967296;
          tr' = tr\<lparr>info := info tr @ [si]\<rparr>
      in if find_range rs (si_gp si) = None then tr'\<lparr>keep := keep tr' @ [idx]\<rparr>
         else tr'\<lparr>scan := scan tr' @ [idx]\<rparr>)"

text \<open>
  The loop over \<^verbatim>\<open>pointers\<close>. \<^verbatim>\<open>rngs[idx_r]\<close> is read with no check in the source; an index
  that is not below the size of \<^verbatim>\<open>rngs\<close> is the result \<open>Out_of_bounds\<close> here.
\<close>

fun snapshot_pointers ::
  "memory_range list \<Rightarrow> 'o graph_ptr list \<Rightarrow> trace \<Rightarrow> error + trace" where
  "snapshot_pointers rs [] tr = Inr tr"
| "snapshot_pointers rs (gp # gps) tr =
     (if ptr gp \<noteq> None then
        (let idx_r = find_range_iterator rs (gp_get gp)
         in if idx_r < length (rngs tr) then
              snapshot_pointers rs gps
                (push_info rs (tr\<lparr>rngs := (rngs tr)[idx_r := (rngs tr ! idx_r)\<lparr>managed := True\<rparr>]\<rparr>)
                   \<lparr>si_gp = gp_addr gp, si_range = idx_r\<rparr>)
            else Inl Out_of_bounds)
      else snapshot_pointers rs gps tr)"

text \<open>The loop over \<^verbatim>\<open>rawPointers\<close>: a slot whose address is in no range is skipped.\<close>

fun snapshot_rawPointers ::
  "memory_range list \<Rightarrow> raw_graph_ptr list \<Rightarrow> trace \<Rightarrow> trace" where
  "snapshot_rawPointers rs [] tr = tr"
| "snapshot_rawPointers rs (rgp # rgps) tr =
     (let it_r = find_range_iterator rs (raw_ptr rgp)
      in if it_r \<noteq> length rs then
           snapshot_rawPointers rs rgps
             (push_info rs (tr\<lparr>rngs := (rngs tr)[it_r := (rngs tr ! it_r)\<lparr>managed := False\<rparr>]\<rparr>)
                \<lparr>si_gp = rgp_addr rgp, si_range = it_r\<rparr>)
         else snapshot_rawPointers rs rgps tr)"

definition snapshot :: "'o graph \<Rightarrow> error + trace" where
  "snapshot g =
     (let tr = \<lparr>rngs = map (\<lambda>r. \<lparr>rng_begin = range_begin r, rng_end = range_end r,
                                managed = False, scanned = False\<rparr>) (ranges g),
                info = [], scan = [], keep = []\<rparr>
      in case snapshot_pointers (ranges g) (pointers g) tr of
           Inl e \<Rightarrow> Inl e
         | Inr tr' \<Rightarrow> Inr (snapshot_rawPointers (ranges g) (rawPointers g) tr'))"

subsection \<open>The mark phase\<close>

text \<open>
  The walk over \<^verbatim>\<open>scan\<close> for one parent range: \<open>it\<close> is the position of the iterator. A
  record whose slot address is in \<open>[begin, end)\<close> of the parent's range goes to the end of
  \<^verbatim>\<open>keep\<close>, the last element of \<^verbatim>\<open>scan\<close> takes its place and \<^verbatim>\<open>scan\<close> loses its last element.
  Not returning is the value \<open>None\<close>.
\<close>

partial_function (option) scan_walk ::
  "scan_info list \<Rightarrow> range_mark \<Rightarrow> nat \<Rightarrow> nat list \<Rightarrow> nat list \<Rightarrow> (nat list \<times> nat list) option"
where
  "scan_walk infos parent_range it scan_v keep_v =
     (if it \<noteq> length scan_v then
        (let idx = scan_v ! it;
             bp = si_gp (infos ! idx)
         in if rng_begin parent_range \<le> bp \<and> bp < rng_end parent_range then
              scan_walk infos parent_range it
                (butlast (scan_v[it := last scan_v])) (keep_v @ [idx])
            else scan_walk infos parent_range (Suc it) scan_v keep_v)
      else Some (scan_v, keep_v))"

text \<open>
  The loop over the growing \<^verbatim>\<open>keep\<close>, from position \<open>i\<close>. The source reads \<^verbatim>\<open>keep[i]\<close>,
  \<^verbatim>\<open>info[keep[i]]\<close>, \<^verbatim>\<open>info[idx]\<close> and \<^verbatim>\<open>*parent.range\<close> with no check; for the traces the snapshot
  builds these reads are in range at every round (\<open>snapshot_inv\<close>, \<open>mark_loop_inv\<close>).
\<close>

partial_function (option) mark_loop ::
  "scan_info list \<Rightarrow> nat \<Rightarrow> range_mark list \<Rightarrow> nat list \<Rightarrow> nat list
     \<Rightarrow> (range_mark list \<times> nat list \<times> nat list) option"
where
  "mark_loop infos i rngs_v scan_v keep_v =
     (if i \<noteq> length keep_v then
        (let parent = infos ! (keep_v ! i)
         in if scanned (rngs_v ! si_range parent) then
              mark_loop infos (Suc i) rngs_v scan_v keep_v
            else
              Option.bind (scan_walk infos (rngs_v ! si_range parent) 0 scan_v keep_v)
                (\<lambda>(scan', keep').
                   mark_loop infos (Suc i)
                     (rngs_v[si_range parent := (rngs_v ! si_range parent)\<lparr>scanned := True\<rparr>])
                     scan' keep'))
      else Some (rngs_v, scan_v, keep_v))"

definition mark :: "trace \<Rightarrow> trace option" where
  "mark tr =
     map_option (\<lambda>(rngs', scan', keep'). tr\<lparr>rngs := rngs', scan := scan', keep := keep'\<rparr>)
       (mark_loop (info tr) 0 (rngs tr) (scan tr) (keep tr))"

subsection \<open>The sweep and \<^verbatim>\<open>collect_impl\<close>\<close>

text \<open>
  \<^verbatim>\<open>mptr->ptr\<close> for \<^verbatim>\<open>mptr = si.gp\<close>: the strong reference of the owning slot stored at that
  address. (A record whose range is marked managed always comes from an owning slot: the
  loop over \<^verbatim>\<open>rawPointers\<close> runs last and clears the mark of every range it makes a record
  for; see \<open>collect_impl_result\<close>.)
\<close>

definition ptr_at :: "'o graph_ptr list \<Rightarrow> addr \<Rightarrow> 'o option" where
  "ptr_at gps a = (case find (\<lambda>gp. gp_addr gp = a) gps of Some gp \<Rightarrow> ptr gp | None \<Rightarrow> None)"

text \<open>\<^verbatim>\<open>std::move(mptr->ptr)\<close> leaves the slot with the null reference.\<close>

definition moved_from :: "'o graph_ptr list \<Rightarrow> addr \<Rightarrow> 'o graph_ptr list" where
  "moved_from gps a = map (\<lambda>gp. if gp_addr gp = a then gp\<lparr>ptr := None\<rparr> else gp) gps"

fun sweep ::
  "trace \<Rightarrow> nat list \<Rightarrow> 'o option list \<Rightarrow> 'o graph_ptr list
     \<Rightarrow> 'o option list \<times> 'o graph_ptr list" where
  "sweep tr [] unreachable gps = (unreachable, gps)"
| "sweep tr (idx # idxs) unreachable gps =
     (let si = info tr ! idx
      in if managed (rngs tr ! si_range si) then
           sweep tr idxs (unreachable @ [ptr_at gps (si_gp si)]) (moved_from gps (si_gp si))
         else sweep tr idxs unreachable gps)"

text \<open>
  \<^verbatim>\<open>graph::collect_impl\<close>: the garbage batch and the graph it leaves, \<open>Inl\<close> where the source
  leaves defined behaviour, \<open>None\<close> where it would not return. \<^verbatim>\<open>collecting.exchange(true)\<close> sets
  the flag, which the end of the pass clears again. The two \<^verbatim>\<open>printf\<close> calls, the clock and the
  \<^verbatim>\<open>reserve\<close> calls are left out.
\<close>

definition collect_impl :: "'o graph \<Rightarrow> (error + 'o option list \<times> 'o graph) option" where
  "collect_impl g =
     (if collecting g then Some (Inr ([], g))
      else
        (case snapshot g of
           Inl e \<Rightarrow> Some (Inl e)
         | Inr tr \<Rightarrow>
             Option.bind (mark tr)
               (\<lambda>tr'. let (unreachable, gps) = sweep tr' (scan tr') [] (pointers g)
                      in Some (Inr (unreachable, g\<lparr>pointers := gps, collecting := False\<rparr>)))))"

subsection \<open>Reachability by address containment\<close>

text \<open>The records the snapshot makes, in the order it makes them.\<close>

definition owning_record :: "memory_range list \<Rightarrow> 'o graph_ptr \<Rightarrow> scan_info" where
  "owning_record rs gp = \<lparr>si_gp = gp_addr gp, si_range = find_range_iterator rs (gp_get gp)\<rparr>"

definition raw_record :: "memory_range list \<Rightarrow> raw_graph_ptr \<Rightarrow> scan_info" where
  "raw_record rs rgp = \<lparr>si_gp = rgp_addr rgp, si_range = find_range_iterator rs (raw_ptr rgp)\<rparr>"

definition owning_records :: "'o graph \<Rightarrow> scan_info list" where
  "owning_records g =
     map (owning_record (ranges g)) (filter (\<lambda>gp. ptr gp \<noteq> None) (pointers g))"

definition raw_records :: "'o graph \<Rightarrow> scan_info list" where
  "raw_records g =
     map (raw_record (ranges g))
       (filter (\<lambda>rgp. find_range_iterator (ranges g) (raw_ptr rgp) \<noteq> length (ranges g))
          (rawPointers g))"

definition records :: "'o graph \<Rightarrow> scan_info list" where
  "records g = owning_records g @ raw_records g"

text \<open>A record is a root when \<^verbatim>\<open>find_range\<close> finds no range for the address of its slot.\<close>

definition is_root :: "memory_range list \<Rightarrow> scan_info \<Rightarrow> bool" where
  "is_root rs si \<longleftrightarrow> find_range rs (si_gp si) = None"

text \<open>
  The records reachable from the seeds: a record is reached when its slot is stored in
  \<open>[begin, end)\<close> of the range a reached record points into.
\<close>

inductive_set reach :: "memory_range list \<Rightarrow> scan_info list \<Rightarrow> scan_info set \<Rightarrow> scan_info set"
  for rs :: "memory_range list" and infos :: "scan_info list" and seeds :: "scan_info set"
where
  seed: "si \<in> seeds \<Longrightarrow> si \<in> set infos \<Longrightarrow> si \<in> reach rs infos seeds"
| step: "k \<in> reach rs infos seeds \<Longrightarrow> si \<in> set infos
         \<Longrightarrow> range_begin (rs ! si_range k) \<le> si_gp si
         \<Longrightarrow> si_gp si < range_end (rs ! si_range k)
         \<Longrightarrow> si \<in> reach rs infos seeds"

text \<open>
  Where a slot is stored, against the index: outside every range \<open>[begin, end)\<close>, which is the
  root of the glossary, and outside every closed interval \<open>[begin, end]\<close>, which is what the
  root test of the code accepts (see \<open>is_root_iff\<close>). A slot stored at the end address of a
  range, and inside no range, is outside in the first sense and not in the second.
\<close>

definition stored_outside :: "memory_range list \<Rightarrow> addr \<Rightarrow> bool" where
  "stored_outside rs a \<longleftrightarrow> list_all (\<lambda>r. \<not> (range_begin r \<le> a \<and> a < range_end r)) rs"

definition stored_outside_closed :: "memory_range list \<Rightarrow> addr \<Rightarrow> bool" where
  "stored_outside_closed rs a \<longleftrightarrow> list_all (\<lambda>r. \<not> (range_begin r \<le> a \<and> a \<le> range_end r)) rs"

text \<open>
  The records the collector keeps: those reachable from the records that are roots by the
  test of the code, \<^verbatim>\<open>!find_range(si.gp)\<close>, with its inclusive upper bound.
\<close>

definition kept :: "'o graph \<Rightarrow> scan_info set" where
  "kept g = reach (ranges g) (records g) {si. is_root (ranges g) si}"

text \<open>
  What the theorems on a whole pass assume of the graph: the record indices fit the 32 bits
  they are cut to, the registered owning slots are different objects (no two at one
  address), and every non-null owning slot refers into a range \<^verbatim>\<open>find_range_iterator\<close> finds
  (otherwise the pass ends in \<open>Out_of_bounds\<close>, see \<open>snapshot_result\<close>).
\<close>

definition slots_ok :: "'o graph \<Rightarrow> bool" where
  "slots_ok g \<longleftrightarrow>
     length (pointers g) + length (rawPointers g) \<le> 4294967296
     \<and> distinct (map gp_addr (pointers g))
     \<and> list_all (\<lambda>gp. ptr gp \<noteq> None \<longrightarrow>
          find_range_iterator (ranges g) (gp_get gp) \<noteq> length (ranges g)) (pointers g)"

text \<open>
  The owning slots whose reference a pass hands over: non-null, not kept, and with no
  observing slot referring into the same range (the loop over \<^verbatim>\<open>rawPointers\<close> runs last and
  resets the managed mark of every range an observing slot refers into).
\<close>

definition collected :: "'o graph \<Rightarrow> 'o graph_ptr \<Rightarrow> bool" where
  "collected g gp \<longleftrightarrow>
     ptr gp \<noteq> None
     \<and> owning_record (ranges g) gp \<notin> kept g
     \<and> list_all (\<lambda>rgp. find_range_iterator (ranges g) (raw_ptr rgp)
                         \<noteq> find_range_iterator (ranges g) (gp_get gp)) (rawPointers g)"

subsection \<open>The invariant of the snapshot loops\<close>

text \<open>
  What holds of the buffers while the registries are read: \<^verbatim>\<open>keep\<close> and \<^verbatim>\<open>scan\<close> hold the indices
  of \<^verbatim>\<open>info\<close>, each once, the roots in \<^verbatim>\<open>keep\<close> and the others in \<^verbatim>\<open>scan\<close>; \<^verbatim>\<open>rngs\<close> mirrors the
  index, with no range scanned.
\<close>

definition snap_inv :: "memory_range list \<Rightarrow> trace \<Rightarrow> bool" where
  "snap_inv rs tr \<longleftrightarrow>
     set (keep tr) \<union> set (scan tr) = {..<length (info tr)}
     \<and> distinct (keep tr @ scan tr)
     \<and> length (rngs tr) = length rs
     \<and> (\<forall>r<length rs. rng_begin (rngs tr ! r) = range_begin (rs ! r)
                        \<and> rng_end (rngs tr ! r) = range_end (rs ! r)
                        \<and> \<not> scanned (rngs tr ! r))
     \<and> (\<forall>si\<in>set (info tr). si_range si < length rs)
     \<and> (\<forall>idx\<in>set (keep tr). is_root rs (info tr ! idx))
     \<and> (\<forall>idx\<in>set (scan tr). \<not> is_root rs (info tr ! idx))"

subsection \<open>The invariant of the mark loop\<close>

text \<open>
  What holds whenever the loop over \<^verbatim>\<open>keep\<close> is at position \<open>i\<close>: the indices in \<^verbatim>\<open>keep\<close> and
  \<^verbatim>\<open>scan\<close> are the indices of \<^verbatim>\<open>info\<close>, each once; \<^verbatim>\<open>rngs\<close> mirrors the index; the ranges of
  the records before \<open>i\<close> are scanned; no record left in \<^verbatim>\<open>scan\<close> is stored in a scanned
  range or is a root; and every record in \<^verbatim>\<open>keep\<close> is reachable from a root.
\<close>

definition mark_inv ::
  "memory_range list \<Rightarrow> scan_info list \<Rightarrow> nat \<Rightarrow> range_mark list \<Rightarrow> nat list \<Rightarrow> nat list \<Rightarrow> bool"
where
  "mark_inv rs infos i rngs_v scan_v keep_v \<longleftrightarrow>
     i \<le> length keep_v
     \<and> set keep_v \<union> set scan_v = {..<length infos}
     \<and> distinct (keep_v @ scan_v)
     \<and> length rngs_v = length rs
     \<and> (\<forall>r<length rs. rng_begin (rngs_v ! r) = range_begin (rs ! r)
                        \<and> rng_end (rngs_v ! r) = range_end (rs ! r))
     \<and> (\<forall>si\<in>set infos. si_range si < length rs)
     \<and> (\<forall>j<i. scanned (rngs_v ! si_range (infos ! (keep_v ! j))))
     \<and> (\<forall>r<length rs. scanned (rngs_v ! r) \<longrightarrow>
           (\<forall>idx\<in>set scan_v. \<not> (range_begin (rs ! r) \<le> si_gp (infos ! idx)
                                  \<and> si_gp (infos ! idx) < range_end (rs ! r))))
     \<and> (\<forall>idx\<in>set keep_v. infos ! idx \<in> reach rs infos {si. is_root rs si})
     \<and> (\<forall>idx\<in>set scan_v. \<not> is_root rs (infos ! idx))"

subsection \<open>Lemmas on the index\<close>

lemma upper_bound_le: "upper_bound rs bp \<le> length rs"
  by (simp add: upper_bound_def length_takeWhile_le)

lemma take_upper_bound: "take (upper_bound rs bp) rs = takeWhile (\<lambda>r. \<not> bp < range_begin r) rs"
  by (simp add: upper_bound_def takeWhile_eq_take[symmetric])

lemma drop_upper_bound: "drop (upper_bound rs bp) rs = dropWhile (\<lambda>r. \<not> bp < range_begin r) rs"
  by (simp add: upper_bound_def dropWhile_eq_drop[symmetric])

lemma before_upper_bound:
  "r \<in> set (take (upper_bound rs bp) rs) \<Longrightarrow> range_begin r \<le> bp"
  by (auto simp: take_upper_bound dest: set_takeWhileD)

lemma index_ok_begins: "index_ok rs \<Longrightarrow> sorted_wrt (\<lambda>a b. range_begin a < range_begin b) rs"
  unfolding index_ok_def list_all_iff
  by (erule conjE, erule sorted_wrt_mono_rel[rotated]) fastforce

lemma after_upper_bound:
  "sorted_wrt (\<lambda>a b. range_begin a < range_begin b) rs \<Longrightarrow> r \<in> set (drop (upper_bound rs bp) rs)
   \<Longrightarrow> bp < range_begin r"
  unfolding drop_upper_bound
  by (induction rs) (auto split: if_splits)

text \<open>
  Whatever is added, \<open>add_range\<close> and the erasure of \<open>remove_range\<close> keep the index sorted by
  begin, which is what \<^verbatim>\<open>std::upper_bound\<close> needs to return the position \<open>upper_bound\<close> gives.
\<close>

lemma after_upper_bound_le:
  "sorted_wrt (\<lambda>a b. range_begin a \<le> range_begin b) rs \<Longrightarrow> r \<in> set (drop (upper_bound rs bp) rs)
   \<Longrightarrow> bp < range_begin r"
  unfolding drop_upper_bound
  by (induction rs) (auto split: if_splits)

lemma add_range_sorted:
  assumes "sorted_wrt (\<lambda>a b. range_begin a \<le> range_begin b) rs"
  shows "sorted_wrt (\<lambda>a b. range_begin a \<le> range_begin b) (add_range rs p n)"
proof -
  let ?it = "upper_bound rs p"
  have "\<forall>x\<in>set (take ?it rs). \<forall>y\<in>set (drop ?it rs). range_begin x \<le> range_begin y"
    using before_upper_bound[of _ rs p] after_upper_bound_le[OF assms, of _ p] by fastforce
  then show ?thesis
    using sorted_wrt_take[OF assms, of ?it] sorted_wrt_drop[OF assms, of ?it]
      before_upper_bound[of _ rs p] after_upper_bound_le[OF assms, of _ p]
    by (fastforce simp: add_range_def Let_def sorted_wrt_append)
qed

lemma remove_range_sorted:
  assumes "sorted_wrt (\<lambda>a b. range_begin a \<le> range_begin b) rs" and "remove_range rs p = Inr rs'"
  shows "sorted_wrt (\<lambda>a b. range_begin a \<le> range_begin b) rs'"
proof -
  let ?it = "find_range_iterator rs p"
  have rs': "rs' = take ?it rs @ drop (Suc ?it) rs"
    using assms(2) by (auto simp: remove_range_def Let_def split: if_splits)
  have cross: "\<forall>x\<in>set (take ?it rs). \<forall>y\<in>set (drop ?it rs). range_begin x \<le> range_begin y"
    using sorted_wrt_append[of "\<lambda>a b. range_begin a \<le> range_begin b" "take ?it rs" "drop ?it rs"] assms(1)
    by simp
  have sub: "set (drop (Suc ?it) rs) \<subseteq> set (drop ?it rs)"
    by (metis drop_Suc set_drop_subset tl_drop drop_drop plus_1_eq_Suc)
  show ?thesis unfolding rs'
    using sorted_wrt_take[OF assms(1), of ?it] sorted_wrt_drop[OF assms(1), of "Suc ?it"] cross sub
    by (auto simp: sorted_wrt_append)
qed

lemma run_ops_sorted:
  "sorted_wrt (\<lambda>a b. range_begin a \<le> range_begin b) rs \<Longrightarrow> run_ops rs ops = Inr rs'
   \<Longrightarrow> sorted_wrt (\<lambda>a b. range_begin a \<le> range_begin b) rs'"
proof (induction rs ops rule: run_ops.induct)
  case (1 rs)
  then show ?case by simp
next
  case (2 rs p n ops)
  then show ?case by (simp add: add_range_sorted)
next
  case (3 rs p ops)
  then show ?case
    by (cases "remove_range rs p") (auto simp: remove_range_sorted)
qed

lemma index_ok_Nil: "index_ok []"
  by (simp add: index_ok_def)

lemma index_ok_add_range:
  assumes ok: "index_ok rs" and n: "0 < n"
    and dis: "list_all (disjoint_ranges \<lparr>range_begin = p, range_end = p + n\<rparr>) rs"
  shows "index_ok (add_range rs p n)"
proof -
  let ?it = "upper_bound rs p"
  have sw: "sorted_wrt (\<lambda>a b. range_end a \<le> range_begin b) rs"
    and ne: "\<forall>r\<in>set rs. range_begin r < range_end r"
    using ok by (simp_all add: index_ok_def list_all_iff)
  have d: "\<forall>r\<in>set rs. range_end r \<le> p \<or> p + n \<le> range_begin r"
  proof
    fix r assume r: "r \<in> set rs"
    with dis have "{p ..< p + n} \<inter> {range_begin r ..< range_end r} = {}"
      by (simp add: list_all_iff disjoint_ranges_def)
    moreover have "range_begin r < range_end r" using ne r by blast
    ultimately show "range_end r \<le> p \<or> p + n \<le> range_begin r"
      using n by (auto simp: Int_atLeastLessThan not_less) 
  qed
  have lo: "\<forall>r\<in>set (take ?it rs). range_end r \<le> p"
  proof
    fix r assume r: "r \<in> set (take ?it rs)"
    then have "range_begin r \<le> p" by (rule before_upper_bound)
    moreover have "r \<in> set rs" using r by (rule in_set_takeD)
    ultimately show "range_end r \<le> p" using d n by fastforce
  qed
  have hi: "\<forall>r\<in>set (drop ?it rs). p + n \<le> range_begin r"
  proof
    fix r assume r: "r \<in> set (drop ?it rs)"
    then have "p < range_begin r"
      using after_upper_bound[OF index_ok_begins[OF ok]] by blast
    moreover have "r \<in> set rs" using r by (rule in_set_dropD)
    moreover have "range_begin r < range_end r" using ne calculation(2) by blast
    ultimately show "p + n \<le> range_begin r" using d by fastforce
  qed
  have "sorted_wrt (\<lambda>a b. range_end a \<le> range_begin b)
          (take ?it rs @ \<lparr>range_begin = p, range_end = p + n\<rparr> # drop ?it rs)"
    using sorted_wrt_take[OF sw, of ?it] sorted_wrt_drop[OF sw, of ?it] lo hi
    by (fastforce simp: sorted_wrt_append)
  moreover have "\<forall>r\<in>set (take ?it rs @ \<lparr>range_begin = p, range_end = p + n\<rparr> # drop ?it rs).
      range_begin r < range_end r"
    using ne n by (auto dest: in_set_takeD in_set_dropD)
  ultimately show ?thesis
    by (simp add: index_ok_def add_range_def list_all_iff Let_def)
qed

lemma index_ok_erase: "index_ok rs \<Longrightarrow> index_ok (take it rs @ drop (Suc it) rs)"
proof -
  assume ok: "index_ok rs"
  have sw: "sorted_wrt (\<lambda>a b. range_end a \<le> range_begin b) rs"
    using ok by (simp add: index_ok_def)
  have cross: "\<forall>x\<in>set (take it rs). \<forall>y\<in>set (drop it rs). range_end x \<le> range_begin y"
    using sorted_wrt_append[of "\<lambda>a b. range_end a \<le> range_begin b" "take it rs" "drop it rs"] sw
    by simp
  have sub: "set (drop (Suc it) rs) \<subseteq> set (drop it rs)"
    by (metis drop_Suc set_drop_subset tl_drop drop_drop plus_1_eq_Suc)
  have "sorted_wrt (\<lambda>a b. range_end a \<le> range_begin b) (take it rs @ drop (Suc it) rs)"
    using sorted_wrt_take[OF sw, of it] sorted_wrt_drop[OF sw, of "Suc it"] cross sub
    by (auto simp: sorted_wrt_append)
  moreover have "\<forall>r\<in>set (take it rs @ drop (Suc it) rs). range_begin r < range_end r"
    using ok by (auto simp: index_ok_def list_all_iff dest: in_set_takeD in_set_dropD)
  ultimately show ?thesis by (simp add: index_ok_def list_all_iff)
qed

lemma index_ok_remove_range: "index_ok rs \<Longrightarrow> remove_range rs p = Inr rs' \<Longrightarrow> index_ok rs'"
  by (auto simp: remove_range_def Let_def index_ok_erase split: if_splits)

lemma index_ok_run_ops:
  "index_ok rs \<Longrightarrow> adds_disjoint rs ops \<Longrightarrow> run_ops rs ops = Inr rs' \<Longrightarrow> index_ok rs'"
proof (induction rs ops rule: run_ops.induct)
  case (1 rs)
  then show ?case by simp
next
  case (2 rs p n ops)
  then show ?case by (simp add: index_ok_add_range)
next
  case (3 rs p ops)
  then show ?case
    by (cases "remove_range rs p") (auto simp: index_ok_remove_range)
qed

lemma index_ok_disjoint:
  assumes "index_ok rs" "i < length rs" "j < length rs" "i \<noteq> j"
  shows "disjoint_ranges (rs ! i) (rs ! j)"
proof -
  have sw: "sorted_wrt (\<lambda>a b. range_end a \<le> range_begin b) rs"
    using assms(1) by (simp add: index_ok_def)
  have "i < j \<or> j < i" using assms(4) by arith
  then show ?thesis
  proof
    assume "i < j"
    then have "range_end (rs ! i) \<le> range_begin (rs ! j)"
      using sw assms(3) by (simp add: sorted_wrt_iff_nth_less)
    then show ?thesis by (auto simp: disjoint_ranges_def)
  next
    assume "j < i"
    then have "range_end (rs ! j) \<le> range_begin (rs ! i)"
      using sw assms(2) by (simp add: sorted_wrt_iff_nth_less)
    then show ?thesis by (auto simp: disjoint_ranges_def)
  qed
qed

subsection \<open>C6: the index stays sorted and disjoint\<close>

text \<open>
  C6. Start from the empty index and run any sequence of \<^verbatim>\<open>add_range\<close> and \<^verbatim>\<open>remove_range\<close>
  calls in which each added range is a range of the data model (\<open>size > 0\<close>) and is disjoint
  from the ranges present when it is added. If the run ends without a failed assertion,
  the index is sorted by strictly increasing begin address and its ranges are pairwise
  disjoint.
\<close>

theorem index_sorted_disjoint:
  assumes "adds_disjoint [] ops" and "run_ops [] ops = Inr rs"
  shows "sorted_wrt (\<lambda>a b. range_begin a < range_begin b) rs
         \<and> (\<forall>i<length rs. \<forall>j<length rs. i \<noteq> j \<longrightarrow> disjoint_ranges (rs ! i) (rs ! j))"
proof -
  have "index_ok rs" using index_ok_run_ops[OF index_ok_Nil assms] .
  then show ?thesis using index_ok_begins index_ok_disjoint by blast
qed

theorem index_sorted_disjoint_witness:
  "adds_disjoint [] [Add_range 32 16, Add_range 16 16, Add_range 64 8, Remove_range 32]
   \<and> run_ops [] [Add_range 32 16, Add_range 16 16, Add_range 64 8, Remove_range 32]
       = Inr [\<lparr>range_begin = 16, range_end = 32\<rparr>, \<lparr>range_begin = 64, range_end = 72\<rparr>]
   \<and> sorted_wrt (\<lambda>a b. range_begin a < range_begin b)
        [\<lparr>range_begin = 16, range_end = 32\<rparr>, \<lparr>range_begin = 64, range_end = 72\<rparr>]
   \<and> disjoint_ranges \<lparr>range_begin = 16, range_end = 32\<rparr> \<lparr>range_begin = 64, range_end = 72\<rparr>"
proof -
  let ?ops = "[Add_range 32 16, Add_range 16 16, Add_range 64 8, Remove_range 32]"
  let ?rs = "[\<lparr>range_begin = 16, range_end = 32\<rparr>, \<lparr>range_begin = 64, range_end = 72\<rparr>]"
  have r: "run_ops [] ?ops = Inr ?rs"
    by (simp add: add_range_def remove_range_def find_range_iterator_def upper_bound_def)
  have a: "adds_disjoint [] ?ops"
    by (simp add: add_range_def remove_range_def find_range_iterator_def upper_bound_def
        disjoint_ranges_def)
  from index_sorted_disjoint[OF a r] have s: "sorted_wrt (\<lambda>a b. range_begin a < range_begin b) ?rs"
    and d: "\<And>i j. i < length ?rs \<Longrightarrow> j < length ?rs \<Longrightarrow> i \<noteq> j
               \<Longrightarrow> disjoint_ranges (?rs ! i) (?rs ! j)"
    by blast+
  have "disjoint_ranges (?rs ! 0) (?rs ! 1)" by (rule d) simp_all
  with a r s show ?thesis by simp
qed

lemma ub_before: "j < upper_bound rs a \<Longrightarrow> range_begin (rs ! j) \<le> a"
proof -
  assume j: "j < upper_bound rs a"
  then have "j < length (take (upper_bound rs a) rs)" using upper_bound_le[of rs a] by simp
  then have "take (upper_bound rs a) rs ! j \<in> set (take (upper_bound rs a) rs)" by (rule nth_mem)
  then show ?thesis using j before_upper_bound by fastforce
qed

lemma ub_after:
  assumes "index_ok rs" "upper_bound rs a \<le> j" "j < length rs"
  shows "a < range_begin (rs ! j)"
proof -
  have "drop (upper_bound rs a) rs ! (j - upper_bound rs a) \<in> set (drop (upper_bound rs a) rs)"
    using assms(2,3) by (intro nth_mem) simp
  then have "rs ! j \<in> set (drop (upper_bound rs a) rs)"
    using assms(2,3) by simp
  then show ?thesis using after_upper_bound[OF index_ok_begins[OF assms(1)]] by blast
qed

lemma index_ok_nth_le:
  "index_ok rs \<Longrightarrow> i < j \<Longrightarrow> j < length rs \<Longrightarrow> range_end (rs ! i) \<le> range_begin (rs ! j)"
  by (simp add: index_ok_def sorted_wrt_iff_nth_less)

lemma index_ok_nth_nonempty:
  "index_ok rs \<Longrightarrow> i < length rs \<Longrightarrow> range_begin (rs ! i) < range_end (rs ! i)"
  by (simp add: index_ok_def list_all_length)

lemma index_ok_begin_mono:
  assumes "index_ok rs" "i \<le> j" "j < length rs"
  shows "range_begin (rs ! i) \<le> range_begin (rs ! j)"
proof (cases "i = j")
  case False
  then have "i < j" using assms(2) by simp
  then show ?thesis
    using index_ok_nth_le[OF assms(1) _ assms(3), of i] index_ok_nth_nonempty[OF assms(1), of i] assms(3)
    by fastforce
qed simp

lemma index_ok_end_mono:
  assumes "index_ok rs" "i \<le> j" "j < length rs"
  shows "range_end (rs ! i) \<le> range_end (rs ! j)"
proof (cases "i = j")
  case False
  then have "i < j" using assms(2) by simp
  then show ?thesis
    using index_ok_nth_le[OF assms(1) _ assms(3), of i] index_ok_nth_nonempty[OF assms(1) assms(3)]
    by fastforce
qed simp

text \<open>What a successful search returns, for any index.\<close>

lemma fri_result:
  assumes "find_range_iterator rs a \<noteq> length rs"
  shows "find_range_iterator rs a = upper_bound rs a - 1 \<and> upper_bound rs a \<noteq> 0 \<and> a \<noteq> 0
         \<and> range_begin (rs ! find_range_iterator rs a) \<le> a
         \<and> a \<le> range_end (rs ! find_range_iterator rs a)"
  using assms by (auto simp: find_range_iterator_def Let_def split: if_splits)

lemma fri_le: "find_range_iterator rs a \<le> length rs"
  using upper_bound_le[of rs a] by (auto simp: find_range_iterator_def Let_def)

text \<open>In a valid index, an address in some closed interval is found.\<close>

lemma fri_found:
  assumes ok: "index_ok rs" and a: "a \<noteq> 0" and k: "k < length rs"
    and lo: "range_begin (rs ! k) \<le> a" and hi: "a \<le> range_end (rs ! k)"
  shows "find_range_iterator rs a = upper_bound rs a - 1 \<and> k \<le> upper_bound rs a - 1
         \<and> upper_bound rs a - 1 < length rs
         \<and> (k < upper_bound rs a - 1 \<longrightarrow> a = range_begin (rs ! (upper_bound rs a - 1)))"
proof -
  let ?ub = "upper_bound rs a"
  let ?i = "?ub - 1"
  have kub: "k < ?ub"
  proof (rule ccontr)
    assume "\<not> k < ?ub"
    then have "a < range_begin (rs ! k)" using ub_after[OF ok _ k, of a] by simp
    then show False using lo by simp
  qed
  then have ki: "k \<le> ?i" and ub0: "?ub \<noteq> 0" by simp_all
  have il: "?i < length rs" using upper_bound_le[of rs a] ub0 by arith
  have ilo: "range_begin (rs ! ?i) \<le> a" using ub_before[of ?i rs a] ub0 by simp
  have ne: "rs \<noteq> []" using k by auto
  have env1: "range_begin (hd rs) \<le> a"
    using index_ok_begin_mono[OF ok _ k, of 0] lo ne by (simp add: hd_conv_nth)
  have "k \<le> length rs - 1" "length rs - 1 < length rs" using k by simp_all
  then have "range_end (rs ! k) \<le> range_end (rs ! (length rs - 1))"
    by (rule index_ok_end_mono[OF ok])
  then have env2: "a \<le> range_end (last rs)"
    using hi ne by (simp add: last_conv_nth)
  have border: "k < ?i \<longrightarrow> a = range_begin (rs ! ?i)"
    using index_ok_nth_le[OF ok _ il, of k] hi ilo by fastforce
  have ihi: "a \<le> range_end (rs ! ?i)"
  proof (cases "k = ?i")
    case True
    then show ?thesis using hi by simp
  next
    case False
    then have "a = range_begin (rs ! ?i)" using border ki by simp
    then show ?thesis using index_ok_nth_nonempty[OF ok il] by simp
  qed
  have "find_range_iterator rs a = ?i"
    using a ne env1 env2 ub0 ilo ihi by (simp add: find_range_iterator_def Let_def)
  then show ?thesis using ki il border by simp
qed

lemma fri_found_set:
  assumes "index_ok rs" "a \<noteq> 0" "r \<in> set rs" "range_begin r \<le> a" "a \<le> range_end r"
  shows "find_range_iterator rs a \<noteq> length rs"
proof -
  obtain k where "k < length rs" "rs ! k = r" using assms(3) by (auto simp: in_set_conv_nth)
  then show ?thesis using fri_found[OF assms(1,2), of k] assms(4,5) by simp
qed

text \<open>In a valid index, the range found is the only one whose half-open interval can hold
  the address.\<close>

lemma fri_others:
  assumes ok: "index_ok rs" and f: "find_range_iterator rs a \<noteq> length rs"
    and j: "j < length rs" and ne: "j \<noteq> find_range_iterator rs a"
  shows "\<not> (range_begin (rs ! j) \<le> a \<and> a < range_end (rs ! j))"
proof -
  let ?i = "find_range_iterator rs a"
  note r = fri_result[OF f]
  have ri: "range_begin (rs ! ?i) \<le> a" and ru: "?i = upper_bound rs a - 1" "upper_bound rs a \<noteq> 0"
    using r by blast+
  have il: "?i < length rs" using fri_le[of rs a] f by simp
  have "j < ?i \<or> ?i < j" using ne by arith
  then show ?thesis
  proof
    assume "j < ?i"
    then have "range_end (rs ! j) \<le> range_begin (rs ! ?i)" by (rule index_ok_nth_le[OF ok _ il])
    then show ?thesis using ri by linarith
  next
    assume "?i < j"
    then have "upper_bound rs a \<le> j" using ru by linarith
    then have "a < range_begin (rs ! j)" using ub_after[OF ok _ j] by simp
    then show ?thesis by simp
  qed
qed

lemma fri_unique:
  assumes ok: "index_ok rs" and a: "a \<noteq> 0" and k: "k < length rs"
    and lo: "range_begin (rs ! k) \<le> a" and hi: "a \<le> range_end (rs ! k)"
    and others: "\<forall>j<length rs. j \<noteq> k \<longrightarrow> \<not> (range_begin (rs ! j) \<le> a \<and> a < range_end (rs ! j))"
  shows "find_range_iterator rs a = k"
proof -
  let ?i = "upper_bound rs a - 1"
  note f = fri_found[OF ok a k lo hi]
  have "\<not> k < ?i"
  proof
    assume lt: "k < ?i"
    then have "a = range_begin (rs ! ?i)" using f by simp
    then have "range_begin (rs ! ?i) \<le> a \<and> a < range_end (rs ! ?i)"
      using index_ok_nth_nonempty[OF ok, of ?i] f by simp
    then show False using others f lt by auto
  qed
  then show ?thesis using f by simp
qed

lemma index_ok_distinct: "index_ok rs \<Longrightarrow> distinct rs"
  using index_ok_begins[of rs] by (auto simp: distinct_conv_nth sorted_wrt_iff_nth_less)
   (metis nat_neq_iff less_irrefl)

subsection \<open>C3: what \<^verbatim>\<open>find_range\<close> returns\<close>

text \<open>
  C3. In an index that satisfies I1 and I2, for a non-null address \<open>a\<close>, \<^verbatim>\<open>find_range(a)\<close>
  returns the range \<open>r\<close> iff \<open>r\<close> is in the index, \<open>a\<close> lies in the closed interval
  \<open>[r.begin, r.end]\<close> and no other range of the index contains \<open>a\<close>, a range being the
  half-open interval \<open>[begin, end)\<close> of the data model. For every index, \<^verbatim>\<open>find_range\<close> returns
  no range when \<open>a\<close> is null, when the index is empty, and when \<open>a\<close> lies outside
  \<open>[front.begin, back.end]\<close>.
\<close>

theorem find_range_sound:
  "(index_ok rs \<and> a \<noteq> 0 \<longrightarrow>
      (find_range rs a = Some r \<longleftrightarrow>
         r \<in> set rs \<and> range_begin r \<le> a \<and> a \<le> range_end r
         \<and> (\<forall>r'\<in>set rs. r' \<noteq> r \<longrightarrow> \<not> (range_begin r' \<le> a \<and> a < range_end r'))))
   \<and> find_range rs 0 = None
   \<and> find_range [] a = None
   \<and> (rs \<noteq> [] \<and> (a < range_begin (hd rs) \<or> range_end (last rs) < a) \<longrightarrow> find_range rs a = None)"
proof -
  have main: "find_range rs a = Some r \<longleftrightarrow>
         r \<in> set rs \<and> range_begin r \<le> a \<and> a \<le> range_end r
         \<and> (\<forall>r'\<in>set rs. r' \<noteq> r \<longrightarrow> \<not> (range_begin r' \<le> a \<and> a < range_end r'))"
    if ok: "index_ok rs" and a: "a \<noteq> 0"
  proof
    assume "find_range rs a = Some r"
    then have f: "find_range_iterator rs a \<noteq> length rs" and r: "r = rs ! find_range_iterator rs a"
      by (auto simp: find_range_def Let_def split: if_splits)
    have il: "find_range_iterator rs a < length rs" using fri_le[of rs a] f by simp
    have "\<not> (range_begin r' \<le> a \<and> a < range_end r')" if r1: "r' \<in> set rs" and r2: "r' \<noteq> r" for r'
    proof -
      obtain j where "j < length rs" "rs ! j = r'" using r1 by (auto simp: in_set_conv_nth)
      then show ?thesis using fri_others[OF ok f, of j] r2 r by auto
    qed
    then show "r \<in> set rs \<and> range_begin r \<le> a \<and> a \<le> range_end r
         \<and> (\<forall>r'\<in>set rs. r' \<noteq> r \<longrightarrow> \<not> (range_begin r' \<le> a \<and> a < range_end r'))"
      using fri_result[OF f] r il by auto
  next
    assume h: "r \<in> set rs \<and> range_begin r \<le> a \<and> a \<le> range_end r
         \<and> (\<forall>r'\<in>set rs. r' \<noteq> r \<longrightarrow> \<not> (range_begin r' \<le> a \<and> a < range_end r'))"
    then obtain k where k: "k < length rs" "rs ! k = r" by (auto simp: in_set_conv_nth)
    have "\<forall>j<length rs. j \<noteq> k \<longrightarrow> \<not> (range_begin (rs ! j) \<le> a \<and> a < range_end (rs ! j))"
    proof (intro allI impI)
      fix j assume j: "j < length rs" "j \<noteq> k"
      then have "rs ! j \<noteq> r" using index_ok_distinct[OF ok] k by (auto simp: distinct_conv_nth)
      then show "\<not> (range_begin (rs ! j) \<le> a \<and> a < range_end (rs ! j))" using h j(1) by auto
    qed
    then have "find_range_iterator rs a = k" using fri_unique[OF ok a k(1)] h k(2) by simp
    then show "find_range rs a = Some r" using k by (simp add: find_range_def)
  qed
  have "find_range rs 0 = None" by (simp add: find_range_def find_range_iterator_def)
  moreover have "find_range [] a = None" by (simp add: find_range_def find_range_iterator_def)
  moreover have "rs \<noteq> [] \<and> (a < range_begin (hd rs) \<or> range_end (last rs) < a) \<longrightarrow> find_range rs a = None"
    by (auto simp: find_range_def find_range_iterator_def)
  ultimately show ?thesis using main by blast
qed


theorem find_range_sound_witness:
  "index_ok [\<lparr>range_begin = 16, range_end = 32\<rparr>, \<lparr>range_begin = 32, range_end = 48\<rparr>]
   \<and> (32 :: addr) \<noteq> 0
   \<and> find_range [\<lparr>range_begin = 16, range_end = 32\<rparr>, \<lparr>range_begin = 32, range_end = 48\<rparr>] 32
       = Some \<lparr>range_begin = 32, range_end = 48\<rparr>
   \<and> find_range [\<lparr>range_begin = 16, range_end = 32\<rparr>, \<lparr>range_begin = 32, range_end = 48\<rparr>] 32
       \<noteq> Some \<lparr>range_begin = 16, range_end = 32\<rparr>
   \<and> find_range [\<lparr>range_begin = 16, range_end = 32\<rparr>, \<lparr>range_begin = 32, range_end = 48\<rparr>] 49
       = None"
proof -
  let ?rs = "[\<lparr>range_begin = 16, range_end = 32\<rparr>, \<lparr>range_begin = 32, range_end = 48\<rparr>]"
  have ok: "index_ok ?rs" by (simp add: index_ok_def)
  have 1: "find_range ?rs 32 = Some \<lparr>range_begin = 32, range_end = 48\<rparr>"
    using find_range_sound[of ?rs 32 "\<lparr>range_begin = 32, range_end = 48\<rparr>"] ok by simp
  have 2: "find_range ?rs 32 \<noteq> Some \<lparr>range_begin = 16, range_end = 32\<rparr>"
    using find_range_sound[of ?rs 32 "\<lparr>range_begin = 16, range_end = 32\<rparr>"] ok by simp
  have 3: "find_range ?rs 49 = None"
    using find_range_sound[of ?rs 49] by simp
  show ?thesis using ok 1 2 3 by simp
qed

subsection \<open>C4: \<^verbatim>\<open>remove_range\<close>\<close>

text \<open>
  The source has no check that the range found begins at \<open>p\<close>: a pointer into the middle of
  a range passes the assertion and erases that range.
\<close>

theorem remove_range_interior_counterexample:
  "remove_range [\<lparr>range_begin = 16, range_end = 32\<rparr>] 20 = Inr []
   \<and> 20 \<noteq> range_begin \<lparr>range_begin = 16, range_end = 32\<rparr>"
  by (simp add: remove_range_def find_range_iterator_def upper_bound_def)

text \<open>
  C4, amended. In an index that satisfies I1 and I2, \<^verbatim>\<open>remove_range(p)\<close> for a non-null \<open>p\<close> that
  is the begin of the range at position \<open>i\<close> erases exactly that element and leaves the
  others as they are, in their order. The assertion fails exactly when \<open>p\<close> is null or
  lies in no closed interval \<open>[begin, end]\<close> of the index.
\<close>

theorem remove_range_erases:
  assumes ok: "index_ok rs"
  shows "(p \<noteq> 0 \<and> i < length rs \<and> range_begin (rs ! i) = p
            \<longrightarrow> remove_range rs p = Inr (take i rs @ drop (Suc i) rs))
         \<and> (remove_range rs p = Inl Assertion_failed
            \<longleftrightarrow> p = 0 \<or> (\<forall>r\<in>set rs. \<not> (range_begin r \<le> p \<and> p \<le> range_end r)))"
proof -
  have 1: "remove_range rs p = Inr (take i rs @ drop (Suc i) rs)"
    if p: "p \<noteq> 0" and i: "i < length rs" and b: "range_begin (rs ! i) = p"
  proof -
    have "\<not> (range_begin (rs ! j) \<le> p \<and> p < range_end (rs ! j))" if j: "j < length rs" "j \<noteq> i" for j
    proof -
      have "j < i \<or> i < j" using j(2) by arith
      then show ?thesis
      proof
        assume "j < i"
        then have "range_end (rs ! j) \<le> range_begin (rs ! i)" by (rule index_ok_nth_le[OF ok _ i])
        then show ?thesis using b by simp
      next
        assume "i < j"
        then have "range_end (rs ! i) \<le> range_begin (rs ! j)" by (rule index_ok_nth_le[OF ok _ j(1)])
        then show ?thesis using b index_ok_nth_nonempty[OF ok i] by simp
      qed
    qed
    then have "find_range_iterator rs p = i"
      using fri_unique[OF ok p i] b index_ok_nth_nonempty[OF ok i] by simp
    then show ?thesis using i by (simp add: remove_range_def)
  qed
  have 2: "remove_range rs p = Inl Assertion_failed
            \<longleftrightarrow> p = 0 \<or> (\<forall>r\<in>set rs. \<not> (range_begin r \<le> p \<and> p \<le> range_end r))"
  proof -
    have "find_range_iterator rs p = length rs
            \<longleftrightarrow> p = 0 \<or> (\<forall>r\<in>set rs. \<not> (range_begin r \<le> p \<and> p \<le> range_end r))"
    proof
      assume f: "find_range_iterator rs p = length rs"
      show "p = 0 \<or> (\<forall>r\<in>set rs. \<not> (range_begin r \<le> p \<and> p \<le> range_end r))"
        using fri_found_set[OF ok, of p] f by blast
    next
      assume h: "p = 0 \<or> (\<forall>r\<in>set rs. \<not> (range_begin r \<le> p \<and> p \<le> range_end r))"
      show "find_range_iterator rs p = length rs"
      proof (rule ccontr)
        assume f: "find_range_iterator rs p \<noteq> length rs"
        then have "find_range_iterator rs p < length rs" using fri_le[of rs p] by simp
        then have "rs ! find_range_iterator rs p \<in> set rs" by (rule nth_mem)
        then show False using fri_result[OF f] h by blast
      qed
    qed
    then show ?thesis by (auto simp: remove_range_def Let_def)
  qed
  show ?thesis using 1 2 by blast
qed

theorem remove_range_erases_witness:
  "index_ok [\<lparr>range_begin = 16, range_end = 32\<rparr>, \<lparr>range_begin = 32, range_end = 48\<rparr>]
   \<and> remove_range [\<lparr>range_begin = 16, range_end = 32\<rparr>, \<lparr>range_begin = 32, range_end = 48\<rparr>] 32
       = Inr [\<lparr>range_begin = 16, range_end = 32\<rparr>]
   \<and> remove_range [\<lparr>range_begin = 16, range_end = 32\<rparr>, \<lparr>range_begin = 32, range_end = 48\<rparr>] 49
       = Inl Assertion_failed"
proof -
  let ?rs = "[\<lparr>range_begin = 16, range_end = 32\<rparr>, \<lparr>range_begin = 32, range_end = 48\<rparr>]"
  have ok: "index_ok ?rs" by (simp add: index_ok_def)
  have 1: "remove_range ?rs 32 = Inr [\<lparr>range_begin = 16, range_end = 32\<rparr>]"
    using remove_range_erases[OF ok, of 32 1] by simp
  have 2: "remove_range ?rs 49 = Inl Assertion_failed"
    using remove_range_erases[OF ok, of 49] by simp
  show ?thesis using ok 1 2 by simp
qed

subsection \<open>Lemmas on the mark phase\<close>

lemma swap_pop:
  "butlast ((pre @ x # post)[length pre := last (pre @ x # post)])
     = pre @ (if post = [] then [] else last post # butlast post)"
  by (simp add: list_update_append butlast_append)

lemma mset_rotate_last: "post \<noteq> [] \<Longrightarrow> add_mset (last post) (mset (butlast post)) = mset post"
  by (induction post) auto

text \<open>The walk returns: it keeps the part of \<open>scan\<close> before the iterator, moves the records
  of the rest that the test accepts to the end of \<open>keep\<close> and leaves the others in \<open>scan\<close>.\<close>

lemma scan_walk_returns:
  "\<exists>scan' moved.
     scan_walk infos pr (length pre) (pre @ rest) keep_v = Some (pre @ scan', keep_v @ moved)
     \<and> mset scan' = mset (filter (\<lambda>idx. \<not> (rng_begin pr \<le> si_gp (infos ! idx)
                                            \<and> si_gp (infos ! idx) < rng_end pr)) rest)
     \<and> mset moved = mset (filter (\<lambda>idx. rng_begin pr \<le> si_gp (infos ! idx)
                                         \<and> si_gp (infos ! idx) < rng_end pr) rest)"
proof (induction "length rest" arbitrary: pre rest keep_v)
  case 0
  then show ?case by (subst scan_walk.simps) simp
next
  case (Suc n)
  then obtain x post where rest: "rest = x # post" and n: "n = length post"
    by (cases rest) auto
  let ?P = "\<lambda>idx. rng_begin pr \<le> si_gp (infos ! idx) \<and> si_gp (infos ! idx) < rng_end pr"
  show ?case
  proof (cases "?P x")
    case True
    let ?rest' = "if post = [] then [] else last post # butlast post"
    have len: "n = length ?rest'" using n by simp
    have ms: "mset ?rest' = mset post" by (simp add: mset_rotate_last)
    from Suc.hyps(1)[OF len, of pre "keep_v @ [x]"] obtain scan' moved where
      w: "scan_walk infos pr (length pre) (pre @ ?rest') (keep_v @ [x]) = Some (pre @ scan', (keep_v @ [x]) @ moved)"
      and s: "mset scan' = mset (filter (\<lambda>idx. \<not> ?P idx) ?rest')"
      and m: "mset moved = mset (filter ?P ?rest')" by blast
    have "scan_walk infos pr (length pre) (pre @ x # post) keep_v
            = scan_walk infos pr (length pre)
                (butlast ((pre @ x # post)[length pre := last (pre @ x # post)])) (keep_v @ [x])"
      using True by (subst scan_walk.simps) (simp add: Let_def)
    then have "scan_walk infos pr (length pre) (pre @ rest) keep_v
            = scan_walk infos pr (length pre) (pre @ ?rest') (keep_v @ [x])"
      unfolding rest swap_pop .
    then have "scan_walk infos pr (length pre) (pre @ rest) keep_v = Some (pre @ scan', keep_v @ (x # moved))"
      using w by simp
    moreover have "mset scan' = mset (filter (\<lambda>idx. \<not> ?P idx) rest)"
      using s ms True unfolding rest mset_filter by simp
    moreover have "mset (x # moved) = mset (filter ?P rest)"
      using m ms True unfolding rest mset_filter by simp
    ultimately show ?thesis by blast
  next
    case False
    from Suc.hyps(1)[OF n, of "pre @ [x]" keep_v] obtain scan' moved where
      w: "scan_walk infos pr (length (pre @ [x])) ((pre @ [x]) @ post) keep_v = Some ((pre @ [x]) @ scan', keep_v @ moved)"
      and s: "mset scan' = mset (filter (\<lambda>idx. \<not> ?P idx) post)"
      and m: "mset moved = mset (filter ?P post)" by blast
    have "scan_walk infos pr (length pre) (pre @ rest) keep_v
            = scan_walk infos pr (Suc (length pre)) (pre @ rest) keep_v"
      using False unfolding rest
      by (subst scan_walk.simps) (auto simp: Let_def)
    then have "scan_walk infos pr (length pre) (pre @ rest) keep_v = Some (pre @ (x # scan'), keep_v @ moved)"
      using w by (simp add: rest)
    moreover have "mset (x # scan') = mset (filter (\<lambda>idx. \<not> ?P idx) rest)"
      using s False unfolding rest by simp
    moreover have "mset moved = mset (filter ?P rest)"
      using m False unfolding rest by simp
    ultimately show ?thesis by blast
  qed
qed

text \<open>Where the test accepts no record, the walk leaves both vectors as they are.\<close>

lemma scan_walk_none:
  "\<forall>idx\<in>set rest. \<not> (rng_begin pr \<le> si_gp (infos ! idx) \<and> si_gp (infos ! idx) < rng_end pr)
   \<Longrightarrow> scan_walk infos pr (length pre) (pre @ rest) keep_v = Some (pre @ rest, keep_v)"
proof (induction rest arbitrary: pre)
  case Nil
  then show ?case by (subst scan_walk.simps) simp
next
  case (Cons x post)
  have nx: "\<not> (rng_begin pr \<le> si_gp (infos ! x) \<and> si_gp (infos ! x) < rng_end pr)"
    using Cons.prems by simp
  have "scan_walk infos pr (length pre) (pre @ x # post) keep_v
          = scan_walk infos pr (length (pre @ [x])) ((pre @ [x]) @ post) keep_v"
    using nx by (subst scan_walk.simps) (auto simp: Let_def)
  then show ?case using Cons.IH[of "pre @ [x]"] Cons.prems by simp
qed

lemma scan_walk_0:
  "\<exists>scan' moved.
     scan_walk infos pr 0 scan_v keep_v = Some (scan', keep_v @ moved)
     \<and> mset scan' = mset (filter (\<lambda>idx. \<not> (rng_begin pr \<le> si_gp (infos ! idx)
                                            \<and> si_gp (infos ! idx) < rng_end pr)) scan_v)
     \<and> mset moved = mset (filter (\<lambda>idx. rng_begin pr \<le> si_gp (infos ! idx)
                                         \<and> si_gp (infos ! idx) < rng_end pr) scan_v)"
  using scan_walk_returns[of infos pr "[]" scan_v keep_v] by simp

text \<open>The loop over \<open>keep\<close> returns from every position inside \<open>keep\<close>: it only appends to
  \<open>keep\<close>, and what it appends it takes from \<open>scan\<close>.\<close>

lemma mark_loop_returns:
  "i \<le> length keep_v \<Longrightarrow>
   \<exists>rngs' scan' more.
     mark_loop infos i rngs_v scan_v keep_v = Some (rngs', scan', keep_v @ more)
     \<and> mset more + mset scan' = mset scan_v"
proof (induction "length keep_v + length scan_v - i" arbitrary: i rngs_v scan_v keep_v
    rule: less_induct)
  case less
  show ?case
  proof (cases "i = length keep_v")
    case True
    then show ?thesis by (subst mark_loop.simps) simp
  next
    case False
    then have i: "i < length keep_v" using less.prems by simp
    let ?parent = "infos ! (keep_v ! i)"
    show ?thesis
    proof (cases "scanned (rngs_v ! si_range ?parent)")
      case True
      have "mark_loop infos i rngs_v scan_v keep_v = mark_loop infos (Suc i) rngs_v scan_v keep_v"
        using False True by (subst mark_loop.simps) (simp add: Let_def)
      moreover have "\<exists>rngs' scan' more.
          mark_loop infos (Suc i) rngs_v scan_v keep_v = Some (rngs', scan', keep_v @ more)
          \<and> mset more + mset scan' = mset scan_v"
        using i by (intro less.hyps) simp_all
      ultimately show ?thesis by simp
    next
      case unscanned: False
      obtain scan1 moved where
        w: "scan_walk infos (rngs_v ! si_range ?parent) 0 scan_v keep_v = Some (scan1, keep_v @ moved)"
        and s1: "mset scan1 = mset (filter (\<lambda>idx. \<not> (rng_begin (rngs_v ! si_range ?parent) \<le> si_gp (infos ! idx)
                                            \<and> si_gp (infos ! idx) < rng_end (rngs_v ! si_range ?parent))) scan_v)"
        and m1: "mset moved = mset (filter (\<lambda>idx. rng_begin (rngs_v ! si_range ?parent) \<le> si_gp (infos ! idx)
                                         \<and> si_gp (infos ! idx) < rng_end (rngs_v ! si_range ?parent)) scan_v)"
        using scan_walk_0 by blast
      have part: "mset moved + mset scan1 = mset scan_v"
        unfolding s1 m1 mset_filter by simp
      then have len: "length moved + length scan1 = length scan_v"
        by (metis size_mset size_union)
      let ?rngs1 = "rngs_v[si_range ?parent := (rngs_v ! si_range ?parent)\<lparr>scanned := True\<rparr>]"
      have step: "mark_loop infos i rngs_v scan_v keep_v
                    = mark_loop infos (Suc i) ?rngs1 scan1 (keep_v @ moved)"
        using False unscanned w by (subst mark_loop.simps) (simp add: Let_def)
      have "\<exists>rngs' scan' more.
          mark_loop infos (Suc i) ?rngs1 scan1 (keep_v @ moved) = Some (rngs', scan', (keep_v @ moved) @ more)
          \<and> mset more + mset scan' = mset scan1"
        using i len by (intro less.hyps) simp_all
      then obtain rngs' scan' more where
        r: "mark_loop infos (Suc i) ?rngs1 scan1 (keep_v @ moved) = Some (rngs', scan', keep_v @ (moved @ more))"
        and p: "mset more + mset scan' = mset scan1" by auto
      have "mset (moved @ more) + mset scan' = mset scan_v"
        using p part by (metis mset_append add.assoc)
      then show ?thesis using step r by metis
    qed
  qed
qed


lemma nth_list_update_if: "xs[i := x] ! j = (if i = j \<and> i < length xs then x else xs ! j)"
  by (cases "i < length xs") (simp_all add: nth_list_update list_update_beyond)

lemma mark_inv_skip:
  assumes inv: "mark_inv rs infos i rngs_v scan_v keep_v" and i: "i < length keep_v"
    and sc: "scanned (rngs_v ! si_range (infos ! (keep_v ! i)))"
  shows "mark_inv rs infos (Suc i) rngs_v scan_v keep_v"
proof -
  have "\<forall>j<Suc i. scanned (rngs_v ! si_range (infos ! (keep_v ! j)))"
    using inv sc by (auto simp: mark_inv_def less_Suc_eq)
  then show ?thesis using inv i unfolding mark_inv_def by simp
qed

lemma mark_inv_walk:
  assumes inv: "mark_inv rs infos i rngs_v scan_v keep_v" and i: "i < length keep_v"
    and r: "r = si_range (infos ! (keep_v ! i))"
    and s1: "mset scan1 = mset (filter (\<lambda>idx. \<not> (rng_begin (rngs_v ! r) \<le> si_gp (infos ! idx)
                                            \<and> si_gp (infos ! idx) < rng_end (rngs_v ! r))) scan_v)"
    and m1: "mset moved = mset (filter (\<lambda>idx. rng_begin (rngs_v ! r) \<le> si_gp (infos ! idx)
                                         \<and> si_gp (infos ! idx) < rng_end (rngs_v ! r)) scan_v)"
  shows "mark_inv rs infos (Suc i) (rngs_v[r := (rngs_v ! r)\<lparr>scanned := True\<rparr>]) scan1 (keep_v @ moved)"
proof -
  let ?R = "reach rs infos {si. is_root rs si}"
  let ?rngs1 = "rngs_v[r := (rngs_v ! r)\<lparr>scanned := True\<rparr>]"
  let ?in = "\<lambda>q idx. range_begin (rs ! q) \<le> si_gp (infos ! idx) \<and> si_gp (infos ! idx) < range_end (rs ! q)"
  have cover: "set keep_v \<union> set scan_v = {..<length infos}"
    and dist: "distinct (keep_v @ scan_v)"
    and len: "length rngs_v = length rs"
    and bnd: "\<forall>q<length rs. rng_begin (rngs_v ! q) = range_begin (rs ! q)
                        \<and> rng_end (rngs_v ! q) = range_end (rs ! q)"
    and rng: "\<forall>si\<in>set infos. si_range si < length rs"
    and dn: "\<forall>j<i. scanned (rngs_v ! si_range (infos ! (keep_v ! j)))"
    and closed: "\<forall>q<length rs. scanned (rngs_v ! q) \<longrightarrow> (\<forall>idx\<in>set scan_v. \<not> ?in q idx)"
    and kr: "\<forall>idx\<in>set keep_v. infos ! idx \<in> ?R"
    and nr: "\<forall>idx\<in>set scan_v. \<not> is_root rs (infos ! idx)"
    using inv unfolding mark_inv_def by blast+
  have ki: "keep_v ! i \<in> set keep_v" using i by simp
  then have kl: "keep_v ! i < length infos" using cover by blast
  then have pin: "infos ! (keep_v ! i) \<in> set infos" by simp
  then have rl: "r < length rs" using rng r by blast
  have rb: "rng_begin (rngs_v ! r) = range_begin (rs ! r)" "rng_end (rngs_v ! r) = range_end (rs ! r)"
    using bnd rl by simp_all
  have set1: "set scan1 = {idx \<in> set scan_v. \<not> ?in r idx}"
    using arg_cong[OF s1, of set_mset] rb by auto
  have setm: "set moved = {idx \<in> set scan_v. ?in r idx}"
    using arg_cong[OF m1, of set_mset] rb by auto
  have part: "mset moved + mset scan1 = mset scan_v"
    unfolding s1 m1 mset_filter by simp
  have c1: "Suc i \<le> length (keep_v @ moved)" using i by simp
  have c2: "set (keep_v @ moved) \<union> set scan1 = {..<length infos}"
    using cover set1 setm by auto
  have "mset ((keep_v @ moved) @ scan1) = mset (keep_v @ scan_v)"
    using part by (simp add: add.assoc)
  then have c3: "distinct ((keep_v @ moved) @ scan1)"
    using dist mset_eq_imp_distinct_iff by blast
  have c4: "length ?rngs1 = length rs" using len by simp
  have c5: "\<forall>q<length rs. rng_begin (?rngs1 ! q) = range_begin (rs ! q)
                        \<and> rng_end (?rngs1 ! q) = range_end (rs ! q)"
    using bnd len by (simp add: nth_list_update_if)
  have sc1: "scanned (?rngs1 ! q) \<longleftrightarrow> q = r \<or> scanned (rngs_v ! q)" if "q < length rs" for q
    using that len rl by (auto simp: nth_list_update_if)
  have c7: "\<forall>j<Suc i. scanned (?rngs1 ! si_range (infos ! ((keep_v @ moved) ! j)))"
  proof (intro allI impI)
    fix j assume j: "j < Suc i"
    then have jl: "j < length keep_v" using i by simp
    then have "keep_v ! j \<in> set keep_v" by simp
    then have "keep_v ! j < length infos" using cover by blast
    then have ql: "si_range (infos ! (keep_v ! j)) < length rs" using rng by simp
    have "si_range (infos ! (keep_v ! j)) = r \<or> scanned (rngs_v ! si_range (infos ! (keep_v ! j)))"
      using j dn r by (cases "j = i") auto
    then show "scanned (?rngs1 ! si_range (infos ! ((keep_v @ moved) ! j)))"
      using sc1[OF ql] jl by (simp add: nth_append)
  qed
  have c8: "\<forall>q<length rs. scanned (?rngs1 ! q) \<longrightarrow> (\<forall>idx\<in>set scan1. \<not> ?in q idx)"
  proof (intro allI impI ballI)
    fix q idx assume q: "q < length rs" and s: "scanned (?rngs1 ! q)" and idx: "idx \<in> set scan1"
    show "\<not> ?in q idx"
    proof (cases "q = r")
      case True
      then show ?thesis using idx set1 by simp
    next
      case False
      then have "scanned (rngs_v ! q)" using sc1[OF q] s by simp
      moreover have "idx \<in> set scan_v" using idx set1 by simp
      ultimately show ?thesis using closed q by blast
    qed
  qed
  have c9: "\<forall>idx\<in>set (keep_v @ moved). infos ! idx \<in> ?R"
  proof
    fix idx assume "idx \<in> set (keep_v @ moved)"
    then have "idx \<in> set keep_v \<or> idx \<in> set moved" by simp
    then show "infos ! idx \<in> ?R"
    proof
      assume "idx \<in> set keep_v"
      then show ?thesis using kr by blast
    next
      assume m: "idx \<in> set moved"
      then have "idx \<in> set scan_v" and inr: "?in r idx" using setm by auto
      then have "idx < length infos" using cover by blast
      then have "infos ! idx \<in> set infos" by simp
      moreover have "infos ! (keep_v ! i) \<in> ?R" using kr ki by blast
      ultimately show ?thesis using inr r reach.step[of "infos ! (keep_v ! i)" rs infos _ "infos ! idx"]
        by simp
    qed
  qed
  have c10: "\<forall>idx\<in>set scan1. \<not> is_root rs (infos ! idx)"
    using nr set1 by simp
  show ?thesis
    unfolding mark_inv_def by (intro conjI c1 c2 c3 c4 c5 rng c7 c8 c9 c10)
qed

text \<open>The loop keeps its invariant, and never touches a managed mark.\<close>

lemma mark_loop_inv:
  "mark_inv rs infos i rngs_v scan_v keep_v \<Longrightarrow>
   mark_loop infos i rngs_v scan_v keep_v = Some (rngs', scan', keep') \<Longrightarrow>
   mark_inv rs infos (length keep') rngs' scan' keep'
   \<and> (\<forall>r<length rs. managed (rngs' ! r) = managed (rngs_v ! r))"
proof (induction "length keep_v + length scan_v - i" arbitrary: i rngs_v scan_v keep_v
    rule: less_induct)
  case less
  note inv = less.prems(1)
  have ile: "i \<le> length keep_v" using inv by (simp add: mark_inv_def)
  show ?case
  proof (cases "i = length keep_v")
    case True
    then have "mark_loop infos i rngs_v scan_v keep_v = Some (rngs_v, scan_v, keep_v)"
      by (subst mark_loop.simps) simp
    then show ?thesis using less.prems True by simp
  next
    case False
    then have i: "i < length keep_v" using ile by simp
    let ?parent = "infos ! (keep_v ! i)"
    show ?thesis
    proof (cases "scanned (rngs_v ! si_range ?parent)")
      case True
      have "mark_loop infos i rngs_v scan_v keep_v = mark_loop infos (Suc i) rngs_v scan_v keep_v"
        using False True by (subst mark_loop.simps) (simp add: Let_def)
      then have "mark_loop infos (Suc i) rngs_v scan_v keep_v = Some (rngs', scan', keep')"
        using less.prems(2) by simp
      moreover have "mark_inv rs infos (Suc i) rngs_v scan_v keep_v"
        using mark_inv_skip[OF inv i True] .
      moreover have "length keep_v + length scan_v - Suc i < length keep_v + length scan_v - i"
        using i by simp
      ultimately show ?thesis using less.hyps by blast
    next
      case unscanned: False
      let ?r = "si_range ?parent"
      obtain scan1 moved where
        w: "scan_walk infos (rngs_v ! ?r) 0 scan_v keep_v = Some (scan1, keep_v @ moved)"
        and s1: "mset scan1 = mset (filter (\<lambda>idx. \<not> (rng_begin (rngs_v ! ?r) \<le> si_gp (infos ! idx)
                                            \<and> si_gp (infos ! idx) < rng_end (rngs_v ! ?r))) scan_v)"
        and m1: "mset moved = mset (filter (\<lambda>idx. rng_begin (rngs_v ! ?r) \<le> si_gp (infos ! idx)
                                         \<and> si_gp (infos ! idx) < rng_end (rngs_v ! ?r)) scan_v)"
        using scan_walk_0 by blast
      have "mset moved + mset scan1 = mset scan_v"
        unfolding s1 m1 mset_filter by simp
      then have len: "length moved + length scan1 = length scan_v"
        by (metis size_mset size_union)
      let ?rngs1 = "rngs_v[?r := (rngs_v ! ?r)\<lparr>scanned := True\<rparr>]"
      have "mark_loop infos i rngs_v scan_v keep_v
                    = mark_loop infos (Suc i) ?rngs1 scan1 (keep_v @ moved)"
        using False unscanned w by (subst mark_loop.simps) (simp add: Let_def)
      then have run: "mark_loop infos (Suc i) ?rngs1 scan1 (keep_v @ moved) = Some (rngs', scan', keep')"
        using less.prems(2) by simp
      have inv1: "mark_inv rs infos (Suc i) ?rngs1 scan1 (keep_v @ moved)"
        using mark_inv_walk[OF inv i refl s1 m1] .
      have "length (keep_v @ moved) + length scan1 - Suc i < length keep_v + length scan_v - i"
        using i len by simp
      then have res: "mark_inv rs infos (length keep') rngs' scan' keep'
          \<and> (\<forall>r<length rs. managed (rngs' ! r) = managed (?rngs1 ! r))"
        using less.hyps inv1 run by blast
      have "length rngs_v = length rs" using inv by (simp add: mark_inv_def)
      then have "\<forall>r<length rs. managed (?rngs1 ! r) = managed (rngs_v ! r)"
        by (simp add: nth_list_update_if)
      then show ?thesis using res by simp
    qed
  qed
qed

text \<open>At the end of the loop, \<open>keep\<close> holds the reachable records and \<open>scan\<close> the others.\<close>

lemma mark_inv_final:
  assumes inv: "mark_inv rs infos (length keep_v) rngs_v scan_v keep_v"
  shows "(\<forall>idx\<in>set keep_v. infos ! idx \<in> reach rs infos {si. is_root rs si})
         \<and> (\<forall>idx\<in>set scan_v. infos ! idx \<notin> reach rs infos {si. is_root rs si})"
proof -
  let ?R = "reach rs infos {si. is_root rs si}"
  let ?in = "\<lambda>q idx. range_begin (rs ! q) \<le> si_gp (infos ! idx) \<and> si_gp (infos ! idx) < range_end (rs ! q)"
  have cover: "set keep_v \<union> set scan_v = {..<length infos}"
    and rng: "\<forall>si\<in>set infos. si_range si < length rs"
    and dn: "\<forall>j<length keep_v. scanned (rngs_v ! si_range (infos ! (keep_v ! j)))"
    and closed: "\<forall>q<length rs. scanned (rngs_v ! q) \<longrightarrow> (\<forall>idx\<in>set scan_v. \<not> ?in q idx)"
    and kr: "\<forall>idx\<in>set keep_v. infos ! idx \<in> ?R"
    and nr: "\<forall>idx\<in>set scan_v. \<not> is_root rs (infos ! idx)"
    using inv unfolding mark_inv_def by blast+
  have "si \<in> ?R \<Longrightarrow> \<forall>idx\<in>set scan_v. infos ! idx \<noteq> si" for si
  proof (induction rule: reach.induct)
    case (seed si)
    then show ?case using nr by auto
  next
    case (step k si)
    obtain kidx where kidx: "kidx < length infos" "infos ! kidx = k"
      using reach.cases[OF step.hyps(1)] by (metis in_set_conv_nth)
    then have "kidx \<notin> set scan_v" using step.IH by blast
    then have "kidx \<in> set keep_v" using cover kidx(1) by blast
    then obtain j where j: "j < length keep_v" "keep_v ! j = kidx" by (auto simp: in_set_conv_nth)
    then have "scanned (rngs_v ! si_range k)" using dn kidx by auto
    moreover have "si_range k < length rs" using rng kidx by (metis nth_mem)
    ultimately have "\<forall>idx\<in>set scan_v. \<not> ?in (si_range k) idx" using closed by blast
    then show ?case using step.hyps(3,4) by auto
  qed
  then show ?thesis using kr by blast
qed

text \<open>Where no record in \<open>scan\<close> is stored in the range of a kept record that is still to be
  scanned, the loop adds nothing.\<close>

lemma mark_loop_stable:
  "i \<le> length keep_v \<Longrightarrow>
   \<forall>j<length keep_v. i \<le> j \<longrightarrow> \<not> scanned (rngs_v ! si_range (infos ! (keep_v ! j))) \<longrightarrow>
      (\<forall>idx\<in>set scan_v.
         \<not> (rng_begin (rngs_v ! si_range (infos ! (keep_v ! j))) \<le> si_gp (infos ! idx)
            \<and> si_gp (infos ! idx) < rng_end (rngs_v ! si_range (infos ! (keep_v ! j))))) \<Longrightarrow>
   \<exists>rngs'. mark_loop infos i rngs_v scan_v keep_v = Some (rngs', scan_v, keep_v)"
proof (induction "length keep_v - i" arbitrary: i rngs_v)
  case 0
  then have "i = length keep_v" by simp
  then show ?case by (subst mark_loop.simps) simp
next
  case (Suc n)
  then have i: "i < length keep_v" by simp
  let ?r = "si_range (infos ! (keep_v ! i))"
  show ?case
  proof (cases "scanned (rngs_v ! ?r)")
    case True
    have "mark_loop infos i rngs_v scan_v keep_v = mark_loop infos (Suc i) rngs_v scan_v keep_v"
      using i True by (subst mark_loop.simps) (simp add: Let_def)
    moreover have "\<exists>rngs'. mark_loop infos (Suc i) rngs_v scan_v keep_v = Some (rngs', scan_v, keep_v)"
      using Suc.hyps(2) i Suc.prems(2) by (intro Suc.hyps(1)) auto
    ultimately show ?thesis by simp
  next
    case False
    then have "\<forall>idx\<in>set scan_v. \<not> (rng_begin (rngs_v ! ?r) \<le> si_gp (infos ! idx)
            \<and> si_gp (infos ! idx) < rng_end (rngs_v ! ?r))"
      using Suc.prems(2) i by blast
    then have w: "scan_walk infos (rngs_v ! ?r) 0 scan_v keep_v = Some (scan_v, keep_v)"
      using scan_walk_none[of scan_v "rngs_v ! ?r" infos "[]" keep_v] by simp
    let ?rngs1 = "rngs_v[?r := (rngs_v ! ?r)\<lparr>scanned := True\<rparr>]"
    have step: "mark_loop infos i rngs_v scan_v keep_v = mark_loop infos (Suc i) ?rngs1 scan_v keep_v"
      using i False w by (subst mark_loop.simps) (simp add: Let_def)
    have same: "rng_begin (?rngs1 ! q) = rng_begin (rngs_v ! q) \<and> rng_end (?rngs1 ! q) = rng_end (rngs_v ! q)
                \<and> (\<not> scanned (?rngs1 ! q) \<longrightarrow> \<not> scanned (rngs_v ! q))" for q
      by (simp add: nth_list_update_if)
    have "\<exists>rngs'. mark_loop infos (Suc i) ?rngs1 scan_v keep_v = Some (rngs', scan_v, keep_v)"
    proof (intro Suc.hyps(1))
      show "n = length keep_v - Suc i" using Suc.hyps(2) by simp
      show "Suc i \<le> length keep_v" using i by simp
      show "\<forall>j<length keep_v. Suc i \<le> j \<longrightarrow> \<not> scanned (?rngs1 ! si_range (infos ! (keep_v ! j))) \<longrightarrow>
        (\<forall>idx\<in>set scan_v.
           \<not> (rng_begin (?rngs1 ! si_range (infos ! (keep_v ! j))) \<le> si_gp (infos ! idx)
              \<and> si_gp (infos ! idx) < rng_end (?rngs1 ! si_range (infos ! (keep_v ! j)))))"
        using Suc.prems(2) same by (metis Suc_leD)
    qed
    then show ?thesis using step by simp
  qed
qed

subsection \<open>C8: the mark phase terminates\<close>

text \<open>
  C8. For every trace the mark phase returns. From every position \<open>i\<close> inside \<^verbatim>\<open>keep\<close> the loop
  reaches the end of \<^verbatim>\<open>keep\<close>: \<^verbatim>\<open>keep\<close> only grows at its end, by records taken out of \<^verbatim>\<open>scan\<close>, so
  it makes at most as many rounds as there are records. And once no record in \<^verbatim>\<open>scan\<close> has
  its slot stored inside the range of a kept record whose range is still unscanned, the loop
  ends with \<^verbatim>\<open>keep\<close> and \<^verbatim>\<open>scan\<close> as they are.
\<close>

theorem mark_terminates:
  "(\<exists>tr'. mark tr = Some tr' \<and> length (keep tr') + length (scan tr') = length (keep tr) + length (scan tr))
   \<and> (i \<le> length keep_v \<longrightarrow>
        (\<exists>rngs' scan' more.
           mark_loop infos i rngs_v scan_v keep_v = Some (rngs', scan', keep_v @ more)
           \<and> mset more + mset scan' = mset scan_v))
   \<and> (i \<le> length keep_v
        \<and> (\<forall>j<length keep_v. i \<le> j \<longrightarrow> \<not> scanned (rngs_v ! si_range (infos ! (keep_v ! j))) \<longrightarrow>
             (\<forall>idx\<in>set scan_v.
                \<not> (rng_begin (rngs_v ! si_range (infos ! (keep_v ! j))) \<le> si_gp (infos ! idx)
                   \<and> si_gp (infos ! idx) < rng_end (rngs_v ! si_range (infos ! (keep_v ! j))))))
        \<longrightarrow> (\<exists>rngs'. mark_loop infos i rngs_v scan_v keep_v = Some (rngs', scan_v, keep_v)))"
proof -
  obtain rngs' scan' more where
    r: "mark_loop (info tr) 0 (rngs tr) (scan tr) (keep tr) = Some (rngs', scan', keep tr @ more)"
    and m: "mset more + mset scan' = mset (scan tr)"
    using mark_loop_returns[of 0 "keep tr" "info tr" "rngs tr" "scan tr"] by auto
  have "mark tr = Some (tr\<lparr>rngs := rngs', scan := scan', keep := keep tr @ more\<rparr>)"
    using r by (simp add: mark_def)
  moreover have "length more + length scan' = length (scan tr)"
    using m by (metis size_mset size_union)
  ultimately have 1: "\<exists>tr'. mark tr = Some tr'
      \<and> length (keep tr') + length (scan tr') = length (keep tr) + length (scan tr)"
    by simp
  show ?thesis using 1 mark_loop_returns mark_loop_stable by blast
qed

theorem mark_terminates_witness:
  "mark \<lparr>rngs = [\<lparr>rng_begin = 100, rng_end = 200, managed = True, scanned = False\<rparr>],
         info = [\<lparr>si_gp = 10, si_range = 0\<rparr>, \<lparr>si_gp = 110, si_range = 0\<rparr>],
         scan = [1], keep = [0]\<rparr>
     = Some \<lparr>rngs = [\<lparr>rng_begin = 100, rng_end = 200, managed = True, scanned = True\<rparr>],
         info = [\<lparr>si_gp = 10, si_range = 0\<rparr>, \<lparr>si_gp = 110, si_range = 0\<rparr>],
         scan = [], keep = [0, 1]\<rparr>
   \<and> (0 :: nat) \<le> length [0 :: nat]
   \<and> (\<exists>rngs'. mark_loop [\<lparr>si_gp = 10, si_range = 0\<rparr>, \<lparr>si_gp = 210, si_range = 0\<rparr>] 0
          [\<lparr>rng_begin = 100, rng_end = 200, managed = True, scanned = False\<rparr>] [1] [0]
        = Some (rngs', [1], [0]))"
proof -
  let ?tr = "\<lparr>rngs = [\<lparr>rng_begin = 100, rng_end = 200, managed = True, scanned = False\<rparr>],
         info = [\<lparr>si_gp = 10, si_range = 0\<rparr>, \<lparr>si_gp = 110, si_range = 0\<rparr>],
         scan = [1], keep = [0]\<rparr>"
  have "\<exists>tr'. mark ?tr = Some tr'"
    using mark_terminates[where tr = ?tr] by blast
  moreover have "mark ?tr = None \<or> mark ?tr
     = Some \<lparr>rngs = [\<lparr>rng_begin = 100, rng_end = 200, managed = True, scanned = True\<rparr>],
         info = [\<lparr>si_gp = 10, si_range = 0\<rparr>, \<lparr>si_gp = 110, si_range = 0\<rparr>],
         scan = [], keep = [0, 1]\<rparr>"
    by (simp add: mark_def mark_loop.simps scan_walk.simps)
  ultimately have 1: "mark ?tr
     = Some \<lparr>rngs = [\<lparr>rng_begin = 100, rng_end = 200, managed = True, scanned = True\<rparr>],
         info = [\<lparr>si_gp = 10, si_range = 0\<rparr>, \<lparr>si_gp = 110, si_range = 0\<rparr>],
         scan = [], keep = [0, 1]\<rparr>" by auto
  have 2: "\<exists>rngs'. mark_loop [\<lparr>si_gp = 10, si_range = 0\<rparr>, \<lparr>si_gp = 210, si_range = 0\<rparr>] 0
          [\<lparr>rng_begin = 100, rng_end = 200, managed = True, scanned = False\<rparr>] [1] [0]
        = Some (rngs', [1], [0])"
    using mark_terminates[where i = 0 and keep_v = "[0]" and scan_v = "[1]"
        and rngs_v = "[\<lparr>rng_begin = 100, rng_end = 200, managed = True, scanned = False\<rparr>]"
        and infos = "[\<lparr>si_gp = 10, si_range = 0\<rparr>, \<lparr>si_gp = 210, si_range = 0\<rparr>]"]
    by simp
  show ?thesis using 1 2 by simp
qed

subsection \<open>C7: the re-entrancy guard\<close>

text \<open>
  C7. When \<^verbatim>\<open>collect\<close> is entered with the in-progress flag set, it returns the empty batch at
  once, before it takes a lock or reads a registry, and leaves the graph (the index, both
  registries, every slot and the flag) as it found it.
\<close>

theorem collect_reentry:
  "collecting g \<Longrightarrow> collect_impl g = Some (Inr ([], g))"
  by (simp add: collect_impl_def)

theorem collect_reentry_witness:
  "collecting \<lparr>ranges = [\<lparr>range_begin = 100, range_end = 200\<rparr>],
               pointers = [\<lparr>gp_addr = 110, ptr = Some (1 :: nat), gp_get = 100\<rparr>],
               rawPointers = [], collecting = True\<rparr>
   \<and> collect_impl \<lparr>ranges = [\<lparr>range_begin = 100, range_end = 200\<rparr>],
               pointers = [\<lparr>gp_addr = 110, ptr = Some (1 :: nat), gp_get = 100\<rparr>],
               rawPointers = [], collecting = True\<rparr>
       = Some (Inr ([], \<lparr>ranges = [\<lparr>range_begin = 100, range_end = 200\<rparr>],
               pointers = [\<lparr>gp_addr = 110, ptr = Some (1 :: nat), gp_get = 100\<rparr>],
               rawPointers = [], collecting = True\<rparr>))"
  using collect_reentry[of "\<lparr>ranges = [\<lparr>range_begin = 100, range_end = 200\<rparr>],
               pointers = [\<lparr>gp_addr = 110, ptr = Some (1 :: nat), gp_get = 100\<rparr>],
               rawPointers = [], collecting = True\<rparr>"]
  by simp

subsection \<open>Lemmas on the snapshot\<close>

lemma push_info_fields:
  "rngs (push_info rs tr si) = rngs tr"
  "info (push_info rs tr si) = info tr @ [si]"
  by (simp_all add: push_info_def Let_def)

text \<open>One round of either registry loop keeps the invariant.\<close>

lemma snap_inv_push:
  assumes inv: "snap_inv rs tr" and n: "length (info tr) < 4294967296" and q: "q < length rs"
  shows "snap_inv rs (push_info rs (tr\<lparr>rngs := (rngs tr)[q := (rngs tr ! q)\<lparr>managed := b\<rparr>]\<rparr>)
                       \<lparr>si_gp = a, si_range = q\<rparr>)"
proof -
  let ?si = "\<lparr>si_gp = a, si_range = q\<rparr>"
  let ?rngs1 = "(rngs tr)[q := (rngs tr ! q)\<lparr>managed := b\<rparr>]"
  let ?tr1 = "push_info rs (tr\<lparr>rngs := ?rngs1\<rparr>) ?si"
  let ?n = "length (info tr)"
  have cover: "set (keep tr) \<union> set (scan tr) = {..<?n}"
    and dist: "distinct (keep tr @ scan tr)"
    and len: "length (rngs tr) = length rs"
    and bnd: "\<forall>r<length rs. rng_begin (rngs tr ! r) = range_begin (rs ! r)
                        \<and> rng_end (rngs tr ! r) = range_end (rs ! r)
                        \<and> \<not> scanned (rngs tr ! r)"
    and rng: "\<forall>si\<in>set (info tr). si_range si < length rs"
    and kr: "\<forall>idx\<in>set (keep tr). is_root rs (info tr ! idx)"
    and nr: "\<forall>idx\<in>set (scan tr). \<not> is_root rs (info tr ! idx)"
    using inv unfolding snap_inv_def by blast+
  have idx: "?n mod 4294967296 = ?n" using n by simp
  have mem: "idx \<in> set (keep tr) \<or> idx \<in> set (scan tr) \<longleftrightarrow> idx < ?n" for idx
    using cover by blast
  have fresh: "?n \<notin> set (keep tr)" "?n \<notin> set (scan tr)" using mem[of ?n] by simp_all
  have old: "(info tr @ [?si]) ! idx = info tr ! idx"
    if "idx \<in> set (keep tr) \<or> idx \<in> set (scan tr)" for idx
    using that mem[of idx] by (simp add: nth_append)
  have i1: "info ?tr1 = info tr @ [?si]" and r1: "rngs ?tr1 = ?rngs1"
    by (simp_all add: push_info_fields)
  have c3: "length (rngs ?tr1) = length rs" using len r1 by simp
  have c4: "\<forall>r<length rs. rng_begin (rngs ?tr1 ! r) = range_begin (rs ! r)
                        \<and> rng_end (rngs ?tr1 ! r) = range_end (rs ! r)
                        \<and> \<not> scanned (rngs ?tr1 ! r)"
    using bnd unfolding r1 by (simp add: nth_list_update_if)
  have c5: "\<forall>si\<in>set (info ?tr1). si_range si < length rs"
    using rng q unfolding i1 by auto
  show ?thesis
  proof (cases "find_range rs a = None")
    case True
    then have k: "keep ?tr1 = keep tr @ [?n]" and s: "scan ?tr1 = scan tr"
      using idx by (simp_all add: push_info_def Let_def)
    have c1: "set (keep ?tr1) \<union> set (scan ?tr1) = {..<length (info ?tr1)}"
      unfolding k s i1 by (simp add: lessThan_Suc cover[symmetric])
    have c2: "distinct (keep ?tr1 @ scan ?tr1)"
      unfolding k s using dist fresh by simp
    have c6: "\<forall>idx\<in>set (keep ?tr1). is_root rs (info ?tr1 ! idx)"
      unfolding k i1 using kr old True by (simp add: is_root_def)
    have c7: "\<forall>idx\<in>set (scan ?tr1). \<not> is_root rs (info ?tr1 ! idx)"
      unfolding s i1 using nr old by simp
    show ?thesis unfolding snap_inv_def by (intro conjI c1 c2 c3 c4 c5 c6 c7)
  next
    case False
    then have k: "keep ?tr1 = keep tr" and s: "scan ?tr1 = scan tr @ [?n]"
      using idx by (simp_all add: push_info_def Let_def)
    have c1: "set (keep ?tr1) \<union> set (scan ?tr1) = {..<length (info ?tr1)}"
      unfolding k s i1 by (simp add: lessThan_Suc cover[symmetric])
    have c2: "distinct (keep ?tr1 @ scan ?tr1)"
      unfolding k s using dist fresh by simp
    have c6: "\<forall>idx\<in>set (keep ?tr1). is_root rs (info ?tr1 ! idx)"
      unfolding k i1 using kr old by simp
    have c7: "\<forall>idx\<in>set (scan ?tr1). \<not> is_root rs (info ?tr1 ! idx)"
      unfolding s i1 using nr old False by (simp add: is_root_def)
    show ?thesis unfolding snap_inv_def by (intro conjI c1 c2 c3 c4 c5 c6 c7)
  qed
qed

lemma managed_push:
  "r < length (rngs tr) \<Longrightarrow>
   managed (rngs (push_info rs (tr\<lparr>rngs := (rngs tr)[q := (rngs tr ! q)\<lparr>managed := b\<rparr>]\<rparr>) si) ! r)
     = (if q = r then b else managed (rngs tr ! r))"
  by (simp add: push_info_fields nth_list_update_if)

text \<open>The loop over \<open>pointers\<close>.\<close>

lemma snapshot_pointers_inv:
  "snap_inv rs tr \<Longrightarrow> length (info tr) + length gps \<le> 4294967296 \<Longrightarrow>
   snapshot_pointers rs gps tr = Inr tr' \<Longrightarrow>
   snap_inv rs tr'
   \<and> info tr' = info tr @ map (owning_record rs) (filter (\<lambda>gp. ptr gp \<noteq> None) gps)
   \<and> (\<forall>r<length rs. managed (rngs tr' ! r) \<longleftrightarrow>
         managed (rngs tr ! r) \<or> (\<exists>gp\<in>set gps. ptr gp \<noteq> None \<and> find_range_iterator rs (gp_get gp) = r))"
proof (induction gps arbitrary: tr)
  case Nil
  then show ?case by simp
next
  case (Cons gp gps)
  show ?case
  proof (cases "ptr gp \<noteq> None")
    case False
    then show ?thesis using Cons by simp
  next
    case True
    let ?q = "find_range_iterator rs (gp_get gp)"
    let ?tr1 = "push_info rs (tr\<lparr>rngs := (rngs tr)[?q := (rngs tr ! ?q)\<lparr>managed := True\<rparr>]\<rparr>)
                   \<lparr>si_gp = gp_addr gp, si_range = ?q\<rparr>"
    have len: "length (rngs tr) = length rs" using Cons.prems(1) by (simp add: snap_inv_def)
    have q: "?q < length rs" and run: "snapshot_pointers rs gps ?tr1 = Inr tr'"
      using Cons.prems(3) True len by (auto simp: Let_def split: if_splits)
    have inv1: "snap_inv rs ?tr1"
      using Cons.prems(1,2) q by (intro snap_inv_push) simp_all
    have "length (info ?tr1) + length gps \<le> 4294967296"
      using Cons.prems(2) by (simp add: push_info_fields)
    from Cons.IH[OF inv1 this run] have
      r1: "snap_inv rs tr'"
      and r2: "info tr' = info ?tr1 @ map (owning_record rs) (filter (\<lambda>gp. ptr gp \<noteq> None) gps)"
      and r3: "\<forall>r<length rs. managed (rngs tr' ! r) \<longleftrightarrow>
         managed (rngs ?tr1 ! r) \<or> (\<exists>gp\<in>set gps. ptr gp \<noteq> None \<and> find_range_iterator rs (gp_get gp) = r)"
      by blast+
    have i: "info tr' = info tr @ map (owning_record rs) (filter (\<lambda>gp. ptr gp \<noteq> None) (gp # gps))"
      using r2 True by (simp add: push_info_fields owning_record_def)
    have m: "\<forall>r<length rs. managed (rngs tr' ! r) \<longleftrightarrow>
         managed (rngs tr ! r) \<or> (\<exists>gp\<in>set (gp # gps). ptr gp \<noteq> None \<and> find_range_iterator rs (gp_get gp) = r)"
      using r3 True len by (auto simp: managed_push)
    show ?thesis using r1 i m by blast
  qed
qed

text \<open>The loop over \<open>pointers\<close> ends in \<open>Out_of_bounds\<close> exactly when some non-null slot refers
  into no range of the index.\<close>

lemma snapshot_pointers_result:
  "length (rngs tr) = length rs \<Longrightarrow>
   (case snapshot_pointers rs gps tr of
      Inl e \<Rightarrow> e = Out_of_bounds
               \<and> (\<exists>gp\<in>set gps. ptr gp \<noteq> None \<and> find_range_iterator rs (gp_get gp) = length rs)
    | Inr tr' \<Rightarrow> \<forall>gp\<in>set gps. ptr gp \<noteq> None \<longrightarrow> find_range_iterator rs (gp_get gp) \<noteq> length rs)"
proof (induction gps arbitrary: tr)
  case Nil
  then show ?case by simp
next
  case (Cons gp gps)
  let ?q = "find_range_iterator rs (gp_get gp)"
  let ?tr1 = "push_info rs (tr\<lparr>rngs := (rngs tr)[?q := (rngs tr ! ?q)\<lparr>managed := True\<rparr>]\<rparr>)
                   \<lparr>si_gp = gp_addr gp, si_range = ?q\<rparr>"
  have l1: "length (rngs ?tr1) = length rs" using Cons.prems by (simp add: push_info_fields)
  show ?case
    using Cons.IH[OF Cons.prems] Cons.IH[OF l1] Cons.prems fri_le[of rs "gp_get gp"]
    by (auto simp: Let_def split: sum.splits)
qed

text \<open>The loop over \<open>rawPointers\<close>.\<close>

lemma snapshot_rawPointers_inv:
  "snap_inv rs tr \<Longrightarrow> length (info tr) + length rgps \<le> 4294967296 \<Longrightarrow>
   snap_inv rs (snapshot_rawPointers rs rgps tr)
   \<and> info (snapshot_rawPointers rs rgps tr)
       = info tr @ map (raw_record rs)
                     (filter (\<lambda>rgp. find_range_iterator rs (raw_ptr rgp) \<noteq> length rs) rgps)
   \<and> (\<forall>r<length rs. managed (rngs (snapshot_rawPointers rs rgps tr) ! r) \<longleftrightarrow>
         managed (rngs tr ! r) \<and> \<not> (\<exists>rgp\<in>set rgps. find_range_iterator rs (raw_ptr rgp) = r))"
proof (induction rgps arbitrary: tr)
  case Nil
  then show ?case by simp
next
  case (Cons rgp rgps)
  let ?q = "find_range_iterator rs (raw_ptr rgp)"
  show ?case
  proof (cases "?q = length rs")
    case True
    then show ?thesis using Cons by (auto simp: Let_def)
  next
    case False
    let ?tr1 = "push_info rs (tr\<lparr>rngs := (rngs tr)[?q := (rngs tr ! ?q)\<lparr>managed := False\<rparr>]\<rparr>)
                   \<lparr>si_gp = rgp_addr rgp, si_range = ?q\<rparr>"
    have len: "length (rngs tr) = length rs" using Cons.prems(1) by (simp add: snap_inv_def)
    have q: "?q < length rs" using False fri_le[of rs "raw_ptr rgp"] by simp
    have step: "snapshot_rawPointers rs (rgp # rgps) tr = snapshot_rawPointers rs rgps ?tr1"
      using False by (simp add: Let_def)
    have inv1: "snap_inv rs ?tr1"
      using Cons.prems(1,2) q by (intro snap_inv_push) simp_all
    have "length (info ?tr1) + length rgps \<le> 4294967296"
      using Cons.prems(2) by (simp add: push_info_fields)
    from Cons.IH[OF inv1 this] have
      r1: "snap_inv rs (snapshot_rawPointers rs rgps ?tr1)"
      and r2: "info (snapshot_rawPointers rs rgps ?tr1) = info ?tr1 @ map (raw_record rs)
                     (filter (\<lambda>rgp. find_range_iterator rs (raw_ptr rgp) \<noteq> length rs) rgps)"
      and r3: "\<forall>r<length rs. managed (rngs (snapshot_rawPointers rs rgps ?tr1) ! r) \<longleftrightarrow>
         managed (rngs ?tr1 ! r) \<and> \<not> (\<exists>rgp\<in>set rgps. find_range_iterator rs (raw_ptr rgp) = r)"
      by blast+
    have i: "info (snapshot_rawPointers rs (rgp # rgps) tr) = info tr @ map (raw_record rs)
                     (filter (\<lambda>rgp. find_range_iterator rs (raw_ptr rgp) \<noteq> length rs) (rgp # rgps))"
      unfolding step using r2 False by (simp add: push_info_fields raw_record_def)
    have m: "\<forall>r<length rs. managed (rngs (snapshot_rawPointers rs (rgp # rgps) tr) ! r) \<longleftrightarrow>
         managed (rngs tr ! r) \<and> \<not> (\<exists>rgp\<in>set (rgp # rgps). find_range_iterator rs (raw_ptr rgp) = r)"
      unfolding step using r3 len by (auto simp: managed_push)
    show ?thesis using r1 i m unfolding step by blast
  qed
qed

text \<open>The snapshot as a whole.\<close>

lemma snapshot_result:
  "case snapshot g of
      Inl e \<Rightarrow> e = Out_of_bounds
               \<and> (\<exists>gp\<in>set (pointers g). ptr gp \<noteq> None
                     \<and> find_range_iterator (ranges g) (gp_get gp) = length (ranges g))
    | Inr tr \<Rightarrow> \<forall>gp\<in>set (pointers g). ptr gp \<noteq> None
                     \<longrightarrow> find_range_iterator (ranges g) (gp_get gp) \<noteq> length (ranges g)"
proof -
  let ?tr0 = "\<lparr>rngs = map (\<lambda>r. \<lparr>rng_begin = range_begin r, rng_end = range_end r,
                                managed = False, scanned = False\<rparr>) (ranges g),
                info = [], scan = [], keep = []\<rparr>"
  have "length (rngs ?tr0) = length (ranges g)" by simp
  from snapshot_pointers_result[OF this, of "pointers g"] show ?thesis
    by (auto simp: snapshot_def split: sum.splits)
qed

lemma snapshot_inv:
  assumes s: "snapshot g = Inr tr"
    and n: "length (pointers g) + length (rawPointers g) \<le> 4294967296"
  shows "snap_inv (ranges g) tr \<and> info tr = records g
         \<and> (\<forall>r<length (ranges g). managed (rngs tr ! r) \<longleftrightarrow>
               (\<exists>gp\<in>set (pointers g). ptr gp \<noteq> None \<and> find_range_iterator (ranges g) (gp_get gp) = r)
               \<and> \<not> (\<exists>rgp\<in>set (rawPointers g). find_range_iterator (ranges g) (raw_ptr rgp) = r))"
proof -
  let ?rs = "ranges g"
  let ?tr0 = "\<lparr>rngs = map (\<lambda>r. \<lparr>rng_begin = range_begin r, rng_end = range_end r,
                                managed = False, scanned = False\<rparr>) ?rs,
                info = [], scan = [], keep = []\<rparr>"
  obtain tr1 where p: "snapshot_pointers ?rs (pointers g) ?tr0 = Inr tr1"
    and r: "tr = snapshot_rawPointers ?rs (rawPointers g) tr1"
    using s by (auto simp: snapshot_def split: sum.splits)
  have inv0: "snap_inv ?rs ?tr0" by (simp add: snap_inv_def)
  have n0: "length (info ?tr0) + length (pointers g) \<le> 4294967296" using n by simp
  from snapshot_pointers_inv[OF inv0 n0 p] have
    inv1: "snap_inv ?rs tr1"
    and i1: "info tr1 = owning_records g"
    and m1: "\<forall>r<length ?rs. managed (rngs tr1 ! r) \<longleftrightarrow>
         (\<exists>gp\<in>set (pointers g). ptr gp \<noteq> None \<and> find_range_iterator ?rs (gp_get gp) = r)"
    by (simp_all add: owning_records_def)
  have "length (owning_records g) \<le> length (pointers g)" by (simp add: owning_records_def)
  then have n1: "length (info tr1) + length (rawPointers g) \<le> 4294967296" using n i1 by simp
  from snapshot_rawPointers_inv[OF inv1 n1] have
    inv2: "snap_inv ?rs tr"
    and i2: "info tr = records g"
    and m2: "\<forall>r<length ?rs. managed (rngs tr ! r) \<longleftrightarrow>
         managed (rngs tr1 ! r) \<and> \<not> (\<exists>rgp\<in>set (rawPointers g). find_range_iterator ?rs (raw_ptr rgp) = r)"
    unfolding r by (simp_all add: i1 records_def raw_records_def)
  show ?thesis using inv2 i2 m1 m2 by simp
qed

text \<open>The trace the snapshot hands to the mark phase satisfies the invariant of the loop.\<close>

lemma snap_inv_mark_inv:
  assumes "snap_inv rs tr"
  shows "mark_inv rs (info tr) 0 (rngs tr) (scan tr) (keep tr)"
proof -
  have kr: "\<forall>idx\<in>set (keep tr). is_root rs (info tr ! idx)"
    and cover: "set (keep tr) \<union> set (scan tr) = {..<length (info tr)}"
    using assms unfolding snap_inv_def by blast+
  have "\<forall>idx\<in>set (keep tr). info tr ! idx \<in> reach rs (info tr) {si. is_root rs si}"
  proof
    fix idx assume i: "idx \<in> set (keep tr)"
    then have "idx < length (info tr)" using cover by blast
    then have "info tr ! idx \<in> set (info tr)" by simp
    then show "info tr ! idx \<in> reach rs (info tr) {si. is_root rs si}"
      using kr i by (intro reach.seed) simp_all
  qed
  then show ?thesis using assms unfolding snap_inv_def mark_inv_def by simp
qed

subsection \<open>C9: the access to \<^verbatim>\<open>rngs[idx_r]\<close>\<close>

text \<open>
  C9. In an index that satisfies I1 and I2, if every non-null owning slot has a non-null
  referent address that lies in the closed interval \<open>[begin, end]\<close> of some range, then the
  search finds a range for each of them and every access \<^verbatim>\<open>rngs[idx_r]\<close> of the snapshot is in
  bounds: the snapshot returns its trace. And there is a graph with a non-null owning slot
  whose referent lies in no range for which \<^verbatim>\<open>find_range_iterator\<close> returns the end iterator,
  \<open>idx_r\<close> is the size of \<^verbatim>\<open>ranges\<close> and the access is out of bounds.
\<close>

theorem snapshot_bounds:
  "(index_ok (ranges g)
      \<and> list_all (\<lambda>gp. ptr gp \<noteq> None \<longrightarrow> gp_get gp \<noteq> 0
            \<and> list_ex (\<lambda>r. range_begin r \<le> gp_get gp \<and> gp_get gp \<le> range_end r) (ranges g))
          (pointers g)
    \<longrightarrow> list_all (\<lambda>gp. ptr gp \<noteq> None \<longrightarrow>
            find_range_iterator (ranges g) (gp_get gp) < length (ranges g)) (pointers g)
        \<and> (\<exists>tr. snapshot g = Inr tr))
   \<and> (\<exists>g' :: nat graph. \<exists>gp \<in> set (pointers g').
         ptr gp \<noteq> None
         \<and> \<not> list_ex (\<lambda>r. range_begin r \<le> gp_get gp \<and> gp_get gp \<le> range_end r) (ranges g')
         \<and> find_range_iterator (ranges g') (gp_get gp) = length (ranges g')
         \<and> snapshot g' = Inl Out_of_bounds)"
proof -
  have 1: "list_all (\<lambda>gp. ptr gp \<noteq> None \<longrightarrow>
            find_range_iterator (ranges g) (gp_get gp) < length (ranges g)) (pointers g)
        \<and> (\<exists>tr. snapshot g = Inr tr)"
    if ok: "index_ok (ranges g)"
      and h: "list_all (\<lambda>gp. ptr gp \<noteq> None \<longrightarrow> gp_get gp \<noteq> 0
            \<and> list_ex (\<lambda>r. range_begin r \<le> gp_get gp \<and> gp_get gp \<le> range_end r) (ranges g))
          (pointers g)"
  proof -
    have f: "find_range_iterator (ranges g) (gp_get gp) \<noteq> length (ranges g)"
      if g1: "gp \<in> set (pointers g)" and g2: "ptr gp \<noteq> None" for gp
    proof -
      obtain r where "gp_get gp \<noteq> 0" "r \<in> set (ranges g)" "range_begin r \<le> gp_get gp" "gp_get gp \<le> range_end r"
        using h g1 g2 by (auto simp: list_all_iff list_ex_iff)
      then show ?thesis using fri_found_set[OF ok] by blast
    qed
    then have "list_all (\<lambda>gp. ptr gp \<noteq> None \<longrightarrow>
            find_range_iterator (ranges g) (gp_get gp) < length (ranges g)) (pointers g)"
      using fri_le[of "ranges g"] by (fastforce simp: list_all_iff le_neq_implies_less)
    moreover have "\<exists>tr. snapshot g = Inr tr"
      using snapshot_result[of g] f by (cases "snapshot g") auto
    ultimately show ?thesis by simp
  qed
  let ?g = "\<lparr>ranges = [\<lparr>range_begin = 100, range_end = 200\<rparr>],
             pointers = [\<lparr>gp_addr = 10, ptr = Some (1 :: nat), gp_get = 300\<rparr>],
             rawPointers = [], collecting = False\<rparr>"
  have 2: "\<exists>gp \<in> set (pointers ?g).
         ptr gp \<noteq> None
         \<and> \<not> list_ex (\<lambda>r. range_begin r \<le> gp_get gp \<and> gp_get gp \<le> range_end r) (ranges ?g)
         \<and> find_range_iterator (ranges ?g) (gp_get gp) = length (ranges ?g)
         \<and> snapshot ?g = Inl Out_of_bounds"
    by (simp add: snapshot_def find_range_iterator_def)
  show ?thesis using 1 2 by blast
qed

theorem snapshot_bounds_witness:
  "index_ok [\<lparr>range_begin = 100, range_end = 200\<rparr>]
   \<and> list_all (\<lambda>gp. ptr gp \<noteq> None \<longrightarrow> gp_get gp \<noteq> 0
            \<and> list_ex (\<lambda>r. range_begin r \<le> gp_get gp \<and> gp_get gp \<le> range_end r)
                 [\<lparr>range_begin = 100, range_end = 200\<rparr>])
        [\<lparr>gp_addr = 10, ptr = Some (1 :: nat), gp_get = 200\<rparr>]
   \<and> find_range_iterator [\<lparr>range_begin = 100, range_end = 200\<rparr>] 200 < 1
   \<and> (\<exists>tr. snapshot \<lparr>ranges = [\<lparr>range_begin = 100, range_end = 200\<rparr>],
             pointers = [\<lparr>gp_addr = 10, ptr = Some (1 :: nat), gp_get = 200\<rparr>],
             rawPointers = [], collecting = False\<rparr> = Inr tr)"
proof -
  let ?g = "\<lparr>ranges = [\<lparr>range_begin = 100, range_end = 200\<rparr>],
             pointers = [\<lparr>gp_addr = 10, ptr = Some (1 :: nat), gp_get = 200\<rparr>],
             rawPointers = [], collecting = False\<rparr>"
  have ok: "index_ok (ranges ?g)" by (simp add: index_ok_def)
  have h: "list_all (\<lambda>gp. ptr gp \<noteq> None \<longrightarrow> gp_get gp \<noteq> 0
            \<and> list_ex (\<lambda>r. range_begin r \<le> gp_get gp \<and> gp_get gp \<le> range_end r) (ranges ?g))
          (pointers ?g)" by simp
  from snapshot_bounds[of ?g] ok h have
    "list_all (\<lambda>gp. ptr gp \<noteq> None \<longrightarrow>
            find_range_iterator (ranges ?g) (gp_get gp) < length (ranges ?g)) (pointers ?g)
        \<and> (\<exists>tr. snapshot ?g = Inr tr)" by blast
  then show ?thesis using ok h by simp
qed

subsection \<open>Lemmas on the sweep\<close>

lemma ptr_at_moved_from:
  "ptr_at (moved_from gps a) b = (if a = b then None else ptr_at gps b)"
  by (induction gps) (auto simp: ptr_at_def moved_from_def)

lemma ptr_at_distinct:
  "distinct (map gp_addr gps) \<Longrightarrow> gp \<in> set gps \<Longrightarrow> ptr_at gps (gp_addr gp) = ptr gp"
  by (induction gps) (auto simp: ptr_at_def)

text \<open>The batch: one reference for each record of the list whose range is marked managed,
  read from the slots as they were, when the slots of these records are at different
  addresses.\<close>

lemma sweep_fst:
  "distinct (map (\<lambda>idx. si_gp (info tr ! idx))
               (filter (\<lambda>idx. managed (rngs tr ! si_range (info tr ! idx))) idxs)) \<Longrightarrow>
   \<forall>idx\<in>set idxs. managed (rngs tr ! si_range (info tr ! idx)) \<longrightarrow>
       ptr_at gps (si_gp (info tr ! idx)) = ptr_at gps0 (si_gp (info tr ! idx)) \<Longrightarrow>
   fst (sweep tr idxs unreachable gps)
     = unreachable @ map (\<lambda>idx. ptr_at gps0 (si_gp (info tr ! idx)))
                        (filter (\<lambda>idx. managed (rngs tr ! si_range (info tr ! idx))) idxs)"
proof (induction idxs arbitrary: unreachable gps)
  case Nil
  then show ?case by simp
next
  case (Cons idx idxs)
  show ?case
  proof (cases "managed (rngs tr ! si_range (info tr ! idx))")
    case False
    then show ?thesis using Cons by (simp add: Let_def)
  next
    case True
    let ?a = "si_gp (info tr ! idx)"
    have d: "distinct (map (\<lambda>idx. si_gp (info tr ! idx))
               (filter (\<lambda>idx. managed (rngs tr ! si_range (info tr ! idx))) idxs))"
      and fresh: "\<forall>j\<in>set idxs. managed (rngs tr ! si_range (info tr ! j)) \<longrightarrow> si_gp (info tr ! j) \<noteq> ?a"
      using Cons.prems(1) True by (auto simp: image_iff)
    have same: "\<forall>j\<in>set idxs. managed (rngs tr ! si_range (info tr ! j)) \<longrightarrow>
       ptr_at (moved_from gps ?a) (si_gp (info tr ! j)) = ptr_at gps0 (si_gp (info tr ! j))"
      using Cons.prems(2) fresh by (auto simp: ptr_at_moved_from)
    have "fst (sweep tr idxs (unreachable @ [ptr_at gps ?a]) (moved_from gps ?a))
        = (unreachable @ [ptr_at gps ?a]) @ map (\<lambda>idx. ptr_at gps0 (si_gp (info tr ! idx)))
                        (filter (\<lambda>idx. managed (rngs tr ! si_range (info tr ! idx))) idxs)"
      using Cons.IH[OF d same] .
    then show ?thesis using True Cons.prems(2) by (simp add: Let_def)
  qed
qed

text \<open>The slots after the sweep: those at the address of a managed record of the list have
  lost their reference, the others are as they were.\<close>

lemma sweep_snd:
  "snd (sweep tr idxs unreachable gps)
     = map (\<lambda>gp. if gp_addr gp \<in> (\<lambda>idx. si_gp (info tr ! idx)) `
                       {idx \<in> set idxs. managed (rngs tr ! si_range (info tr ! idx))}
                  then gp\<lparr>ptr := None\<rparr> else gp) gps"
proof (induction idxs arbitrary: unreachable gps)
  case Nil
  then show ?case by simp
next
  case (Cons idx idxs)
  show ?case
  proof (cases "managed (rngs tr ! si_range (info tr ! idx))")
    case False
    then have "{j \<in> set (idx # idxs). managed (rngs tr ! si_range (info tr ! j))}
        = {j \<in> set idxs. managed (rngs tr ! si_range (info tr ! j))}" by auto
    then show ?thesis using Cons False by (simp add: Let_def)
  next
    case True
    then have "{j \<in> set (idx # idxs). managed (rngs tr ! si_range (info tr ! j))}
        = insert idx {j \<in> set idxs. managed (rngs tr ! si_range (info tr ! j))}" by auto
    then show ?thesis using Cons True by (auto simp: Let_def moved_from_def)
  qed
qed

subsection \<open>The trace of a pass\<close>

text \<open>For a graph that satisfies \<open>slots_ok\<close>, the snapshot and the mark phase return, and at the
  end of the mark phase \<open>keep\<close> holds the kept records and \<open>scan\<close> the others.\<close>

lemma collect_trace:
  assumes ok: "slots_ok g"
  shows "\<exists>tr tr'. snapshot g = Inr tr \<and> mark tr = Some tr'
           \<and> info tr = records g \<and> info tr' = records g
           \<and> snap_inv (ranges g) tr
           \<and> set (keep tr') \<union> set (scan tr') = {..<length (records g)}
           \<and> distinct (scan tr')
           \<and> (\<forall>idx\<in>set (keep tr'). records g ! idx \<in> kept g)
           \<and> (\<forall>idx\<in>set (scan tr'). records g ! idx \<notin> kept g)
           \<and> (\<forall>r<length (ranges g). managed (rngs tr' ! r) \<longleftrightarrow>
                 (\<exists>gp\<in>set (pointers g). ptr gp \<noteq> None \<and> find_range_iterator (ranges g) (gp_get gp) = r)
                 \<and> \<not> (\<exists>rgp\<in>set (rawPointers g). find_range_iterator (ranges g) (raw_ptr rgp) = r))"
proof -
  let ?rs = "ranges g"
  have n: "length (pointers g) + length (rawPointers g) \<le> 4294967296"
    and found: "\<forall>gp\<in>set (pointers g). ptr gp \<noteq> None \<longrightarrow> find_range_iterator ?rs (gp_get gp) \<noteq> length ?rs"
    using ok by (simp_all add: slots_ok_def list_all_iff)
  obtain tr where s: "snapshot g = Inr tr"
    using snapshot_result[of g] found by (cases "snapshot g") auto
  note si = snapshot_inv[OF s n]
  have inv0: "mark_inv ?rs (info tr) 0 (rngs tr) (scan tr) (keep tr)"
    using si snap_inv_mark_inv by blast
  obtain rngs' scan' more where
    r: "mark_loop (info tr) 0 (rngs tr) (scan tr) (keep tr) = Some (rngs', scan', keep tr @ more)"
    using mark_loop_returns[of 0 "keep tr" "info tr" "rngs tr" "scan tr"] by auto
  let ?tr' = "tr\<lparr>rngs := rngs', scan := scan', keep := keep tr @ more\<rparr>"
  have m: "mark tr = Some ?tr'" using r by (simp add: mark_def)
  from mark_loop_inv[OF inv0 r] have
    inv1: "mark_inv ?rs (info tr) (length (keep tr @ more)) rngs' scan' (keep tr @ more)"
    and mg: "\<forall>r<length ?rs. managed (rngs' ! r) = managed (rngs tr ! r)" by blast+
  note fin = mark_inv_final[OF inv1]
  have i: "info tr = records g" using si by simp
  have cover: "set (keep ?tr') \<union> set (scan ?tr') = {..<length (records g)}"
    and dist: "distinct (scan ?tr')"
    using inv1 i by (simp_all add: mark_inv_def)
  have k: "\<forall>idx\<in>set (keep ?tr'). records g ! idx \<in> kept g"
    and sc: "\<forall>idx\<in>set (scan ?tr'). records g ! idx \<notin> kept g"
    using fin i by (simp_all add: kept_def)
  have mm: "\<forall>r<length ?rs. managed (rngs ?tr' ! r) \<longleftrightarrow>
                 (\<exists>gp\<in>set (pointers g). ptr gp \<noteq> None \<and> find_range_iterator ?rs (gp_get gp) = r)
                 \<and> \<not> (\<exists>rgp\<in>set (rawPointers g). find_range_iterator ?rs (raw_ptr rgp) = r)"
    using mg si by simp
  have "snapshot g = Inr tr \<and> mark tr = Some ?tr'
           \<and> info tr = records g \<and> info ?tr' = records g
           \<and> snap_inv ?rs tr
           \<and> set (keep ?tr') \<union> set (scan ?tr') = {..<length (records g)}
           \<and> distinct (scan ?tr')
           \<and> (\<forall>idx\<in>set (keep ?tr'). records g ! idx \<in> kept g)
           \<and> (\<forall>idx\<in>set (scan ?tr'). records g ! idx \<notin> kept g)
           \<and> (\<forall>r<length ?rs. managed (rngs ?tr' ! r) \<longleftrightarrow>
                 (\<exists>gp\<in>set (pointers g). ptr gp \<noteq> None \<and> find_range_iterator ?rs (gp_get gp) = r)
                 \<and> \<not> (\<exists>rgp\<in>set (rawPointers g). find_range_iterator ?rs (raw_ptr rgp) = r))"
    using s m i si cover dist k sc mm by simp
  then show ?thesis by blast
qed


text \<open>The result of a pass: the batch holds the references of the collected slots, and these
  slots are the ones left with the null reference.\<close>

lemma collect_impl_result:
  assumes nc: "\<not> collecting g" and ok: "slots_ok g"
  shows "\<exists>garbage. collect_impl g
           = Some (Inr (garbage,
                g\<lparr>pointers := map (\<lambda>gp. if collected g gp then gp\<lparr>ptr := None\<rparr> else gp) (pointers g),
                  collecting := False\<rparr>))
         \<and> set garbage = ptr ` {gp \<in> set (pointers g). collected g gp}"
proof -
  let ?rs = "ranges g"
  let ?owners = "filter (\<lambda>gp. ptr gp \<noteq> None) (pointers g)"
  obtain tr tr' where s: "snapshot g = Inr tr" and m: "mark tr = Some tr'"
    and i': "info tr' = records g"
    and cover: "set (keep tr') \<union> set (scan tr') = {..<length (records g)}"
    and dist: "distinct (scan tr')"
    and k: "\<forall>idx\<in>set (keep tr'). records g ! idx \<in> kept g"
    and sc: "\<forall>idx\<in>set (scan tr'). records g ! idx \<notin> kept g"
    and mg: "\<forall>r<length ?rs. managed (rngs tr' ! r) \<longleftrightarrow>
                 (\<exists>gp\<in>set (pointers g). ptr gp \<noteq> None \<and> find_range_iterator ?rs (gp_get gp) = r)
                 \<and> \<not> (\<exists>rgp\<in>set (rawPointers g). find_range_iterator ?rs (raw_ptr rgp) = r)"
    using collect_trace[OF ok] by blast
  have da: "distinct (map gp_addr (pointers g))"
    and found: "\<forall>gp\<in>set (pointers g). ptr gp \<noteq> None \<longrightarrow> find_range_iterator ?rs (gp_get gp) \<noteq> length ?rs"
    using ok by (simp_all add: slots_ok_def list_all_iff)
  have do: "distinct (map gp_addr ?owners)" using da by (rule distinct_map_filter)
  let ?man = "\<lambda>idx. managed (rngs tr' ! si_range (info tr' ! idx))"
  let ?M = "filter ?man (scan tr')"
  have lo: "length (owning_records g) = length ?owners" by (simp add: owning_records_def)
  have rec_own: "records g ! idx = owning_record ?rs (?owners ! idx)" if "idx < length ?owners" for idx
    using that by (simp add: records_def owning_records_def nth_append)
  have fl: "find_range_iterator ?rs (gp_get gp) < length ?rs" if "gp \<in> set ?owners" for gp
    using that found fri_le[of ?rs "gp_get gp"] by (simp add: le_neq_implies_less)
  (* a record whose range is marked managed comes from an owning slot *)
  have managed_record_owning: "idx < length ?owners"
    if il: "idx < length (records g)" and man: "?man idx" for idx
  proof (rule ccontr)
    assume "\<not> idx < length ?owners"
    then have "records g ! idx = raw_records g ! (idx - length ?owners)"
      and "idx - length ?owners < length (raw_records g)"
      using il lo by (simp_all add: records_def nth_append)
    then have "records g ! idx \<in> set (raw_records g)" by (metis nth_mem)
    then obtain rgp where rgp: "rgp \<in> set (rawPointers g)"
      "find_range_iterator ?rs (raw_ptr rgp) \<noteq> length ?rs"
      "records g ! idx = raw_record ?rs rgp"
      by (auto simp: raw_records_def)
    let ?r = "find_range_iterator ?rs (raw_ptr rgp)"
    have "?r < length ?rs" using rgp(2) fri_le[of ?rs "raw_ptr rgp"] by simp
    then have "\<not> managed (rngs tr' ! ?r)" using mg rgp(1) by blast
    then show False using man rgp(3) i' by (simp add: raw_record_def)
  qed
  have Ml: "idx < length ?owners" if "idx \<in> set ?M" for idx
  proof -
    have "idx < length (records g)" using that cover by auto
    then show ?thesis using managed_record_owning that by simp
  qed
  have Maddr: "si_gp (info tr' ! idx) = map gp_addr ?owners ! idx" if "idx \<in> set ?M" for idx
    using Ml[OF that] rec_own i' by (simp add: owning_record_def)
  (* the collected slots are the slots of the managed records left in scan *)
  have M_collected: "collected g (?owners ! idx)" if idx: "idx \<in> set ?M" for idx
  proof -
    let ?gp = "?owners ! idx"
    have l: "idx < length ?owners" using Ml[OF idx] .
    then have mem: "?gp \<in> set ?owners" by (rule nth_mem)
    then have nn: "ptr ?gp \<noteq> None" by simp
    have ro: "records g ! idx = owning_record ?rs ?gp" using rec_own[OF l] .
    have "records g ! idx \<notin> kept g" using sc idx by simp
    then have nk: "owning_record ?rs ?gp \<notin> kept g" using ro by simp
    have "managed (rngs tr' ! find_range_iterator ?rs (gp_get ?gp))"
      using idx ro i' by (simp add: owning_record_def)
    then have "\<not> (\<exists>rgp\<in>set (rawPointers g).
        find_range_iterator ?rs (raw_ptr rgp) = find_range_iterator ?rs (gp_get ?gp))"
      using mg fl[OF mem] by blast
    then show ?thesis using nn nk by (simp add: collected_def list_all_iff)
  qed
  have collected_M: "\<exists>idx\<in>set ?M. ?owners ! idx = gp"
    if gp: "gp \<in> set (pointers g)" and c: "collected g gp" for gp
  proof -
    have nn: "ptr gp \<noteq> None" and nk: "owning_record ?rs gp \<notin> kept g"
      and nr: "\<forall>rgp\<in>set (rawPointers g).
        find_range_iterator ?rs (raw_ptr rgp) \<noteq> find_range_iterator ?rs (gp_get gp)"
      using c by (simp_all add: collected_def list_all_iff)
    have mem: "gp \<in> set ?owners" using gp nn by simp
    then obtain idx where l: "idx < length ?owners" and e: "?owners ! idx = gp"
      unfolding in_set_conv_nth by blast
    have ro: "records g ! idx = owning_record ?rs gp" using rec_own[OF l] e by simp
    have "idx < length (records g)" using l lo by (simp add: records_def)
    moreover have "idx \<notin> set (keep tr')" using k ro nk by auto
    ultimately have in_scan: "idx \<in> set (scan tr')" using cover by blast
    have "managed (rngs tr' ! find_range_iterator ?rs (gp_get gp))"
      using mg fl[OF mem] gp nn nr by blast
    then have "?man idx" using ro i' by (simp add: owning_record_def)
    then show ?thesis using in_scan e by auto
  qed
  (* the batch *)
  have "inj_on (\<lambda>idx. map gp_addr ?owners ! idx) (set ?M)"
    using Ml do by (auto simp: inj_on_def nth_eq_iff_index_eq simp del: nth_map)
  then have d1: "distinct (map (\<lambda>idx. map gp_addr ?owners ! idx) ?M)"
    using dist by (simp add: distinct_map)
  have eq: "map (\<lambda>idx. si_gp (info tr' ! idx)) ?M = map (\<lambda>idx. map gp_addr ?owners ! idx) ?M"
    using Maddr by (intro map_cong) simp_all
  have dM: "distinct (map (\<lambda>idx. si_gp (info tr' ! idx)) ?M)"
    unfolding eq by (rule d1)
  let ?garbage = "map (\<lambda>idx. ptr_at (pointers g) (si_gp (info tr' ! idx))) ?M"
  have sf: "fst (sweep tr' (scan tr') [] (pointers g)) = ?garbage"
    using sweep_fst[OF dM, of "pointers g" "pointers g" "[]"] by simp
  have gptr: "ptr_at (pointers g) (si_gp (info tr' ! idx)) = ptr (?owners ! idx)" if "idx \<in> set ?M" for idx
  proof -
    have "?owners ! idx \<in> set (pointers g)" using Ml[OF that] nth_mem[of idx ?owners] by auto
    then have "ptr_at (pointers g) (gp_addr (?owners ! idx)) = ptr (?owners ! idx)"
      using ptr_at_distinct[OF da] by blast
    then show ?thesis using Maddr[OF that] Ml[OF that] by simp
  qed
  have set_garbage: "set ?garbage = ptr ` {gp \<in> set (pointers g). collected g gp}"
  proof (intro equalityI subsetI)
    fix x assume "x \<in> set ?garbage"
    then obtain idx where idx: "idx \<in> set ?M" and x: "x = ptr (?owners ! idx)"
      using gptr by auto
    have "?owners ! idx \<in> set (pointers g)" using Ml[OF idx] nth_mem[of idx ?owners] by auto
    then show "x \<in> ptr ` {gp \<in> set (pointers g). collected g gp}"
      using M_collected[OF idx] x by blast
  next
    fix x assume "x \<in> ptr ` {gp \<in> set (pointers g). collected g gp}"
    then obtain gp where gp: "gp \<in> set (pointers g)" "collected g gp" and x: "x = ptr gp" by blast
    then obtain idx where idx: "idx \<in> set ?M" and e: "?owners ! idx = gp"
      using collected_M by blast
    have "ptr_at (pointers g) (si_gp (info tr' ! idx)) = x" using gptr[OF idx] e x by simp
    then show "x \<in> set ?garbage" using idx by force
  qed
  (* the slots *)
  let ?A = "(\<lambda>idx. si_gp (info tr' ! idx)) ` {idx \<in> set (scan tr'). ?man idx}"
  have inA: "gp_addr gp \<in> ?A \<longleftrightarrow> collected g gp" if gp: "gp \<in> set (pointers g)" for gp
  proof
    assume "gp_addr gp \<in> ?A"
    then obtain idx where idx: "idx \<in> set ?M" and a: "gp_addr gp = si_gp (info tr' ! idx)" by auto
    have "?owners ! idx \<in> set (pointers g)" using Ml[OF idx] nth_mem[of idx ?owners] by auto
    moreover have "gp_addr (?owners ! idx) = gp_addr gp" using a Maddr[OF idx] Ml[OF idx] by simp
    ultimately have "?owners ! idx = gp"
      using da gp by (auto simp: distinct_map inj_on_def)
    then show "collected g gp" using M_collected[OF idx] by simp
  next
    assume "collected g gp"
    then obtain idx where idx: "idx \<in> set ?M" and e: "?owners ! idx = gp"
      using collected_M gp by blast
    have "gp_addr gp = si_gp (info tr' ! idx)" using Maddr[OF idx] Ml[OF idx] e by simp
    then show "gp_addr gp \<in> ?A" using idx by auto
  qed
  have ss: "snd (sweep tr' (scan tr') [] (pointers g))
      = map (\<lambda>gp. if collected g gp then gp\<lparr>ptr := None\<rparr> else gp) (pointers g)"
    unfolding sweep_snd using inA by (intro map_cong) simp_all
  have "collect_impl g = Some (Inr (?garbage,
                g\<lparr>pointers := map (\<lambda>gp. if collected g gp then gp\<lparr>ptr := None\<rparr> else gp) (pointers g),
                  collecting := False\<rparr>))"
    using nc s m sf ss by (simp add: collect_impl_def split_beta)
  then show ?thesis using set_garbage by blast
qed

subsection \<open>Unfolding a pass on a given graph\<close>

lemmas eval_defs = collect_impl_def snapshot_def push_info_def find_range_def find_range_iterator_def
  upper_bound_def mark_def mark_loop.simps scan_walk.simps ptr_at_def moved_from_def Let_def

lemma reach_mono: "S \<subseteq> S' \<Longrightarrow> reach rs infos S \<subseteq> reach rs infos S'"
proof
  fix si assume "S \<subseteq> S'" "si \<in> reach rs infos S"
  from this(2) this(1) show "si \<in> reach rs infos S'"
    by (induction rule: reach.induct) (auto intro: reach.seed reach.step)
qed


lemmas spec_defs = records_def owning_records_def raw_records_def owning_record_def raw_record_def
  is_root_def slots_ok_def find_range_def find_range_iterator_def upper_bound_def

subsection \<open>The root test of the code\<close>

lemma outside_closed_is_root: "stored_outside_closed rs (si_gp si) \<Longrightarrow> is_root rs si"
proof -
  assume o: "stored_outside_closed rs (si_gp si)"
  have "find_range_iterator rs (si_gp si) = length rs"
  proof (rule ccontr)
    assume f: "find_range_iterator rs (si_gp si) \<noteq> length rs"
    then have "find_range_iterator rs (si_gp si) < length rs" using fri_le[of rs "si_gp si"] by simp
    then have "rs ! find_range_iterator rs (si_gp si) \<in> set rs" by (rule nth_mem)
    then show False using fri_result[OF f] o by (auto simp: stored_outside_closed_def list_all_iff)
  qed
  then show ?thesis by (simp add: is_root_def find_range_def)
qed

text \<open>In an index that satisfies I1 and I2, the root test of the code accepts a non-null slot
  address exactly when it lies outside every closed interval of the index.\<close>

lemma is_root_iff:
  assumes "index_ok rs" and "si_gp si \<noteq> 0"
  shows "is_root rs si \<longleftrightarrow> stored_outside_closed rs (si_gp si)"
proof
  assume "is_root rs si"
  then have "find_range_iterator rs (si_gp si) = length rs"
    by (auto simp: is_root_def find_range_def Let_def split: if_splits)
  then show "stored_outside_closed rs (si_gp si)"
    using fri_found_set[OF assms] by (auto simp: stored_outside_closed_def list_all_iff)
qed (rule outside_closed_is_root)

lemma outside_closed_outside: "stored_outside_closed rs a \<Longrightarrow> stored_outside rs a"
  by (auto simp: stored_outside_closed_def stored_outside_def list_all_iff)

subsection \<open>C1: reachable slots keep their reference\<close>

text \<open>
  Two graphs on which a reachable object has a strong reference in the batch, a root being,
  in the words of the glossary, a slot stored outside every range \<open>[begin, end)\<close>.

  In the first the slot at 10 is a root and refers into the first range, the slots at 510
  and 520 are stored in the second range, which nothing reaches, and the slot at 510 refers
  into the first range too: the batch holds the references moved out of the slots left in
  \<^verbatim>\<open>scan\<close>, not objects, and the reference of the slot at 510 is one of them. The object
  survives, the root still holds it.

  In the second the slot at 200 is stored at the end address of the first range, outside
  every range. The root test of the code is \<^verbatim>\<open>find_range\<close>, whose upper bound is inclusive, so
  the slot is no root for the code; the test of the mark phase is on \<open>[begin, end)\<close>, so the
  slot is never kept either; its reference, the only one to its referent, is in the batch.
\<close>

theorem shared_referent_counterexample:
  "collect_impl \<lparr>ranges = [\<lparr>range_begin = 100, range_end = 200\<rparr>, \<lparr>range_begin = 500, range_end = 600\<rparr>],
      pointers = [\<lparr>gp_addr = 10, ptr = Some (1 :: nat), gp_get = 100\<rparr>,
                  \<lparr>gp_addr = 510, ptr = Some 1, gp_get = 100\<rparr>,
                  \<lparr>gp_addr = 520, ptr = Some 2, gp_get = 500\<rparr>],
      rawPointers = [], collecting = False\<rparr>
   = Some (Inr ([Some 1, Some 2],
     \<lparr>ranges = [\<lparr>range_begin = 100, range_end = 200\<rparr>, \<lparr>range_begin = 500, range_end = 600\<rparr>],
      pointers = [\<lparr>gp_addr = 10, ptr = Some 1, gp_get = 100\<rparr>,
                  \<lparr>gp_addr = 510, ptr = None, gp_get = 100\<rparr>,
                  \<lparr>gp_addr = 520, ptr = None, gp_get = 500\<rparr>],
      rawPointers = [], collecting = False\<rparr>))
   \<and> owning_record (ranges \<lparr>ranges = [\<lparr>range_begin = 100, range_end = 200\<rparr>, \<lparr>range_begin = 500, range_end = 600\<rparr>],
      pointers = [\<lparr>gp_addr = 10, ptr = Some (1 :: nat), gp_get = 100\<rparr>,
                  \<lparr>gp_addr = 510, ptr = Some 1, gp_get = 100\<rparr>,
                  \<lparr>gp_addr = 520, ptr = Some 2, gp_get = 500\<rparr>],
      rawPointers = [], collecting = False\<rparr>)
        \<lparr>gp_addr = 10, ptr = Some (1 :: nat), gp_get = 100\<rparr>
      \<in> reach (ranges \<lparr>ranges = [\<lparr>range_begin = 100, range_end = 200\<rparr>, \<lparr>range_begin = 500, range_end = 600\<rparr>],
      pointers = [\<lparr>gp_addr = 10, ptr = Some (1 :: nat), gp_get = 100\<rparr>,
                  \<lparr>gp_addr = 510, ptr = Some 1, gp_get = 100\<rparr>,
                  \<lparr>gp_addr = 520, ptr = Some 2, gp_get = 500\<rparr>],
      rawPointers = [], collecting = False\<rparr>) (records \<lparr>ranges = [\<lparr>range_begin = 100, range_end = 200\<rparr>, \<lparr>range_begin = 500, range_end = 600\<rparr>],
      pointers = [\<lparr>gp_addr = 10, ptr = Some (1 :: nat), gp_get = 100\<rparr>,
                  \<lparr>gp_addr = 510, ptr = Some 1, gp_get = 100\<rparr>,
                  \<lparr>gp_addr = 520, ptr = Some 2, gp_get = 500\<rparr>],
      rawPointers = [], collecting = False\<rparr>)
           {si \<in> set (owning_records \<lparr>ranges = [\<lparr>range_begin = 100, range_end = 200\<rparr>, \<lparr>range_begin = 500, range_end = 600\<rparr>],
      pointers = [\<lparr>gp_addr = 10, ptr = Some (1 :: nat), gp_get = 100\<rparr>,
                  \<lparr>gp_addr = 510, ptr = Some 1, gp_get = 100\<rparr>,
                  \<lparr>gp_addr = 520, ptr = Some 2, gp_get = 500\<rparr>],
      rawPointers = [], collecting = False\<rparr>). stored_outside (ranges \<lparr>ranges = [\<lparr>range_begin = 100, range_end = 200\<rparr>, \<lparr>range_begin = 500, range_end = 600\<rparr>],
      pointers = [\<lparr>gp_addr = 10, ptr = Some (1 :: nat), gp_get = 100\<rparr>,
                  \<lparr>gp_addr = 510, ptr = Some 1, gp_get = 100\<rparr>,
                  \<lparr>gp_addr = 520, ptr = Some 2, gp_get = 500\<rparr>],
      rawPointers = [], collecting = False\<rparr>) (si_gp si)}
   \<and> collect_impl \<lparr>ranges = [\<lparr>range_begin = 100, range_end = 200\<rparr>, \<lparr>range_begin = 300, range_end = 400\<rparr>],
      pointers = [\<lparr>gp_addr = 10, ptr = Some (1 :: nat), gp_get = 100\<rparr>,
                  \<lparr>gp_addr = 200, ptr = Some 2, gp_get = 300\<rparr>],
      rawPointers = [], collecting = False\<rparr>
   = Some (Inr ([Some 2],
     \<lparr>ranges = [\<lparr>range_begin = 100, range_end = 200\<rparr>, \<lparr>range_begin = 300, range_end = 400\<rparr>],
      pointers = [\<lparr>gp_addr = 10, ptr = Some 1, gp_get = 100\<rparr>,
                  \<lparr>gp_addr = 200, ptr = None, gp_get = 300\<rparr>],
      rawPointers = [], collecting = False\<rparr>))
   \<and> owning_record (ranges \<lparr>ranges = [\<lparr>range_begin = 100, range_end = 200\<rparr>, \<lparr>range_begin = 300, range_end = 400\<rparr>],
      pointers = [\<lparr>gp_addr = 10, ptr = Some (1 :: nat), gp_get = 100\<rparr>,
                  \<lparr>gp_addr = 200, ptr = Some 2, gp_get = 300\<rparr>],
      rawPointers = [], collecting = False\<rparr>)
        \<lparr>gp_addr = 200, ptr = Some (2 :: nat), gp_get = 300\<rparr>
      \<in> reach (ranges \<lparr>ranges = [\<lparr>range_begin = 100, range_end = 200\<rparr>, \<lparr>range_begin = 300, range_end = 400\<rparr>],
      pointers = [\<lparr>gp_addr = 10, ptr = Some (1 :: nat), gp_get = 100\<rparr>,
                  \<lparr>gp_addr = 200, ptr = Some 2, gp_get = 300\<rparr>],
      rawPointers = [], collecting = False\<rparr>) (records \<lparr>ranges = [\<lparr>range_begin = 100, range_end = 200\<rparr>, \<lparr>range_begin = 300, range_end = 400\<rparr>],
      pointers = [\<lparr>gp_addr = 10, ptr = Some (1 :: nat), gp_get = 100\<rparr>,
                  \<lparr>gp_addr = 200, ptr = Some 2, gp_get = 300\<rparr>],
      rawPointers = [], collecting = False\<rparr>)
           {si \<in> set (owning_records \<lparr>ranges = [\<lparr>range_begin = 100, range_end = 200\<rparr>, \<lparr>range_begin = 300, range_end = 400\<rparr>],
      pointers = [\<lparr>gp_addr = 10, ptr = Some (1 :: nat), gp_get = 100\<rparr>,
                  \<lparr>gp_addr = 200, ptr = Some 2, gp_get = 300\<rparr>],
      rawPointers = [], collecting = False\<rparr>). stored_outside (ranges \<lparr>ranges = [\<lparr>range_begin = 100, range_end = 200\<rparr>, \<lparr>range_begin = 300, range_end = 400\<rparr>],
      pointers = [\<lparr>gp_addr = 10, ptr = Some (1 :: nat), gp_get = 100\<rparr>,
                  \<lparr>gp_addr = 200, ptr = Some 2, gp_get = 300\<rparr>],
      rawPointers = [], collecting = False\<rparr>) (si_gp si)}"
proof -
  have 1: "owning_record (ranges \<lparr>ranges = [\<lparr>range_begin = 100, range_end = 200\<rparr>, \<lparr>range_begin = 500, range_end = 600\<rparr>],
      pointers = [\<lparr>gp_addr = 10, ptr = Some (1 :: nat), gp_get = 100\<rparr>,
                  \<lparr>gp_addr = 510, ptr = Some 1, gp_get = 100\<rparr>,
                  \<lparr>gp_addr = 520, ptr = Some 2, gp_get = 500\<rparr>],
      rawPointers = [], collecting = False\<rparr>)
        \<lparr>gp_addr = 10, ptr = Some (1 :: nat), gp_get = 100\<rparr>
      \<in> reach (ranges \<lparr>ranges = [\<lparr>range_begin = 100, range_end = 200\<rparr>, \<lparr>range_begin = 500, range_end = 600\<rparr>],
      pointers = [\<lparr>gp_addr = 10, ptr = Some (1 :: nat), gp_get = 100\<rparr>,
                  \<lparr>gp_addr = 510, ptr = Some 1, gp_get = 100\<rparr>,
                  \<lparr>gp_addr = 520, ptr = Some 2, gp_get = 500\<rparr>],
      rawPointers = [], collecting = False\<rparr>) (records \<lparr>ranges = [\<lparr>range_begin = 100, range_end = 200\<rparr>, \<lparr>range_begin = 500, range_end = 600\<rparr>],
      pointers = [\<lparr>gp_addr = 10, ptr = Some (1 :: nat), gp_get = 100\<rparr>,
                  \<lparr>gp_addr = 510, ptr = Some 1, gp_get = 100\<rparr>,
                  \<lparr>gp_addr = 520, ptr = Some 2, gp_get = 500\<rparr>],
      rawPointers = [], collecting = False\<rparr>)
           {si \<in> set (owning_records \<lparr>ranges = [\<lparr>range_begin = 100, range_end = 200\<rparr>, \<lparr>range_begin = 500, range_end = 600\<rparr>],
      pointers = [\<lparr>gp_addr = 10, ptr = Some (1 :: nat), gp_get = 100\<rparr>,
                  \<lparr>gp_addr = 510, ptr = Some 1, gp_get = 100\<rparr>,
                  \<lparr>gp_addr = 520, ptr = Some 2, gp_get = 500\<rparr>],
      rawPointers = [], collecting = False\<rparr>). stored_outside (ranges \<lparr>ranges = [\<lparr>range_begin = 100, range_end = 200\<rparr>, \<lparr>range_begin = 500, range_end = 600\<rparr>],
      pointers = [\<lparr>gp_addr = 10, ptr = Some (1 :: nat), gp_get = 100\<rparr>,
                  \<lparr>gp_addr = 510, ptr = Some 1, gp_get = 100\<rparr>,
                  \<lparr>gp_addr = 520, ptr = Some 2, gp_get = 500\<rparr>],
      rawPointers = [], collecting = False\<rparr>) (si_gp si)}"
    by (rule reach.seed) (simp_all add: spec_defs stored_outside_def)
  have 2: "owning_record (ranges \<lparr>ranges = [\<lparr>range_begin = 100, range_end = 200\<rparr>, \<lparr>range_begin = 300, range_end = 400\<rparr>],
      pointers = [\<lparr>gp_addr = 10, ptr = Some (1 :: nat), gp_get = 100\<rparr>,
                  \<lparr>gp_addr = 200, ptr = Some 2, gp_get = 300\<rparr>],
      rawPointers = [], collecting = False\<rparr>)
        \<lparr>gp_addr = 200, ptr = Some (2 :: nat), gp_get = 300\<rparr>
      \<in> reach (ranges \<lparr>ranges = [\<lparr>range_begin = 100, range_end = 200\<rparr>, \<lparr>range_begin = 300, range_end = 400\<rparr>],
      pointers = [\<lparr>gp_addr = 10, ptr = Some (1 :: nat), gp_get = 100\<rparr>,
                  \<lparr>gp_addr = 200, ptr = Some 2, gp_get = 300\<rparr>],
      rawPointers = [], collecting = False\<rparr>) (records \<lparr>ranges = [\<lparr>range_begin = 100, range_end = 200\<rparr>, \<lparr>range_begin = 300, range_end = 400\<rparr>],
      pointers = [\<lparr>gp_addr = 10, ptr = Some (1 :: nat), gp_get = 100\<rparr>,
                  \<lparr>gp_addr = 200, ptr = Some 2, gp_get = 300\<rparr>],
      rawPointers = [], collecting = False\<rparr>)
           {si \<in> set (owning_records \<lparr>ranges = [\<lparr>range_begin = 100, range_end = 200\<rparr>, \<lparr>range_begin = 300, range_end = 400\<rparr>],
      pointers = [\<lparr>gp_addr = 10, ptr = Some (1 :: nat), gp_get = 100\<rparr>,
                  \<lparr>gp_addr = 200, ptr = Some 2, gp_get = 300\<rparr>],
      rawPointers = [], collecting = False\<rparr>). stored_outside (ranges \<lparr>ranges = [\<lparr>range_begin = 100, range_end = 200\<rparr>, \<lparr>range_begin = 300, range_end = 400\<rparr>],
      pointers = [\<lparr>gp_addr = 10, ptr = Some (1 :: nat), gp_get = 100\<rparr>,
                  \<lparr>gp_addr = 200, ptr = Some 2, gp_get = 300\<rparr>],
      rawPointers = [], collecting = False\<rparr>) (si_gp si)}"
    by (rule reach.seed) (simp_all add: spec_defs stored_outside_def)
  have 3: "collect_impl \<lparr>ranges = [\<lparr>range_begin = 100, range_end = 200\<rparr>, \<lparr>range_begin = 500, range_end = 600\<rparr>],
      pointers = [\<lparr>gp_addr = 10, ptr = Some (1 :: nat), gp_get = 100\<rparr>,
                  \<lparr>gp_addr = 510, ptr = Some 1, gp_get = 100\<rparr>,
                  \<lparr>gp_addr = 520, ptr = Some 2, gp_get = 500\<rparr>],
      rawPointers = [], collecting = False\<rparr>
   = Some (Inr ([Some 1, Some 2],
     \<lparr>ranges = [\<lparr>range_begin = 100, range_end = 200\<rparr>, \<lparr>range_begin = 500, range_end = 600\<rparr>],
      pointers = [\<lparr>gp_addr = 10, ptr = Some 1, gp_get = 100\<rparr>,
                  \<lparr>gp_addr = 510, ptr = None, gp_get = 100\<rparr>,
                  \<lparr>gp_addr = 520, ptr = None, gp_get = 500\<rparr>],
      rawPointers = [], collecting = False\<rparr>))"
    by (simp add: eval_defs)
  have 4: "collect_impl \<lparr>ranges = [\<lparr>range_begin = 100, range_end = 200\<rparr>, \<lparr>range_begin = 300, range_end = 400\<rparr>],
      pointers = [\<lparr>gp_addr = 10, ptr = Some (1 :: nat), gp_get = 100\<rparr>,
                  \<lparr>gp_addr = 200, ptr = Some 2, gp_get = 300\<rparr>],
      rawPointers = [], collecting = False\<rparr>
   = Some (Inr ([Some 2],
     \<lparr>ranges = [\<lparr>range_begin = 100, range_end = 200\<rparr>, \<lparr>range_begin = 300, range_end = 400\<rparr>],
      pointers = [\<lparr>gp_addr = 10, ptr = Some 1, gp_get = 100\<rparr>,
                  \<lparr>gp_addr = 200, ptr = None, gp_get = 300\<rparr>],
      rawPointers = [], collecting = False\<rparr>))"
    by (simp add: eval_defs)
  show ?thesis using 1 2 3 4 by blast
qed

text \<open>
  C1, amended. Take a root owning slot to be a non-null owning slot stored outside every
  closed interval \<open>[begin, end]\<close> of the index, and a slot to be reached when it is stored in
  \<open>[begin, end)\<close> of the range a reached slot, owning or observing, refers into. In a graph
  that satisfies \<open>slots_ok\<close>, with no collection in progress, \<^verbatim>\<open>collect\<close> returns, and every
  non-null owning slot reachable from a root owning slot is in the graph afterwards as it
  was: its strong reference is not moved into the batch, so its referent keeps a strong
  reference outside the batch. (Nothing is said of a slot stored at the end address of a
  range, nor of the other strong references to the referent.)
\<close>

theorem reachable_slot_keeps_reference:
  assumes nc: "\<not> collecting g" and ok: "slots_ok g"
    and gp: "gp \<in> set (pointers g)" and nn: "ptr gp \<noteq> None"
    and r: "owning_record (ranges g) gp
              \<in> reach (ranges g) (records g)
                   {si \<in> set (owning_records g). stored_outside_closed (ranges g) (si_gp si)}"
  shows "\<exists>garbage g'. collect_impl g = Some (Inr (garbage, g')) \<and> gp \<in> set (pointers g')
           \<and> ranges g' = ranges g"
proof -
  have "{si \<in> set (owning_records g). stored_outside_closed (ranges g) (si_gp si)}
          \<subseteq> {si. is_root (ranges g) si}"
    using outside_closed_is_root by blast
  then have "owning_record (ranges g) gp \<in> kept g"
    using r reach_mono[of "{si \<in> set (owning_records g). stored_outside_closed (ranges g) (si_gp si)}"
        "{si. is_root (ranges g) si}" "ranges g" "records g"]
    unfolding kept_def by blast
  then have "\<not> collected g gp" by (simp add: collected_def)
  then have "gp \<in> set (map (\<lambda>gp. if collected g gp then gp\<lparr>ptr := None\<rparr> else gp) (pointers g))"
    using gp by (force simp: image_iff)
  then show ?thesis using collect_impl_result[OF nc ok] by auto
qed

theorem reachable_slot_keeps_reference_witness:
  "\<not> collecting \<lparr>ranges = [\<lparr>range_begin = 100, range_end = 200\<rparr>, \<lparr>range_begin = 300, range_end = 400\<rparr>],
      pointers = [\<lparr>gp_addr = 10, ptr = Some (1 :: nat), gp_get = 100\<rparr>,
                  \<lparr>gp_addr = 110, ptr = Some 2, gp_get = 300\<rparr>],
      rawPointers = [], collecting = False\<rparr>
   \<and> slots_ok \<lparr>ranges = [\<lparr>range_begin = 100, range_end = 200\<rparr>, \<lparr>range_begin = 300, range_end = 400\<rparr>],
      pointers = [\<lparr>gp_addr = 10, ptr = Some (1 :: nat), gp_get = 100\<rparr>,
                  \<lparr>gp_addr = 110, ptr = Some 2, gp_get = 300\<rparr>],
      rawPointers = [], collecting = False\<rparr>
   \<and> owning_record (ranges \<lparr>ranges = [\<lparr>range_begin = 100, range_end = 200\<rparr>, \<lparr>range_begin = 300, range_end = 400\<rparr>],
      pointers = [\<lparr>gp_addr = 10, ptr = Some (1 :: nat), gp_get = 100\<rparr>,
                  \<lparr>gp_addr = 110, ptr = Some 2, gp_get = 300\<rparr>],
      rawPointers = [], collecting = False\<rparr>)
        \<lparr>gp_addr = 110, ptr = Some (2 :: nat), gp_get = 300\<rparr>
      \<in> reach (ranges \<lparr>ranges = [\<lparr>range_begin = 100, range_end = 200\<rparr>, \<lparr>range_begin = 300, range_end = 400\<rparr>],
      pointers = [\<lparr>gp_addr = 10, ptr = Some (1 :: nat), gp_get = 100\<rparr>,
                  \<lparr>gp_addr = 110, ptr = Some 2, gp_get = 300\<rparr>],
      rawPointers = [], collecting = False\<rparr>) (records \<lparr>ranges = [\<lparr>range_begin = 100, range_end = 200\<rparr>, \<lparr>range_begin = 300, range_end = 400\<rparr>],
      pointers = [\<lparr>gp_addr = 10, ptr = Some (1 :: nat), gp_get = 100\<rparr>,
                  \<lparr>gp_addr = 110, ptr = Some 2, gp_get = 300\<rparr>],
      rawPointers = [], collecting = False\<rparr>)
           {si \<in> set (owning_records \<lparr>ranges = [\<lparr>range_begin = 100, range_end = 200\<rparr>, \<lparr>range_begin = 300, range_end = 400\<rparr>],
      pointers = [\<lparr>gp_addr = 10, ptr = Some (1 :: nat), gp_get = 100\<rparr>,
                  \<lparr>gp_addr = 110, ptr = Some 2, gp_get = 300\<rparr>],
      rawPointers = [], collecting = False\<rparr>). stored_outside_closed (ranges \<lparr>ranges = [\<lparr>range_begin = 100, range_end = 200\<rparr>, \<lparr>range_begin = 300, range_end = 400\<rparr>],
      pointers = [\<lparr>gp_addr = 10, ptr = Some (1 :: nat), gp_get = 100\<rparr>,
                  \<lparr>gp_addr = 110, ptr = Some 2, gp_get = 300\<rparr>],
      rawPointers = [], collecting = False\<rparr>) (si_gp si)}
   \<and> (\<exists>garbage g'. collect_impl \<lparr>ranges = [\<lparr>range_begin = 100, range_end = 200\<rparr>, \<lparr>range_begin = 300, range_end = 400\<rparr>],
      pointers = [\<lparr>gp_addr = 10, ptr = Some (1 :: nat), gp_get = 100\<rparr>,
                  \<lparr>gp_addr = 110, ptr = Some 2, gp_get = 300\<rparr>],
      rawPointers = [], collecting = False\<rparr> = Some (Inr (garbage, g'))
        \<and> \<lparr>gp_addr = 110, ptr = Some (2 :: nat), gp_get = 300\<rparr> \<in> set (pointers g')
        \<and> ranges g' = ranges \<lparr>ranges = [\<lparr>range_begin = 100, range_end = 200\<rparr>, \<lparr>range_begin = 300, range_end = 400\<rparr>],
      pointers = [\<lparr>gp_addr = 10, ptr = Some (1 :: nat), gp_get = 100\<rparr>,
                  \<lparr>gp_addr = 110, ptr = Some 2, gp_get = 300\<rparr>],
      rawPointers = [], collecting = False\<rparr>)"
proof -
  let ?g = "\<lparr>ranges = [\<lparr>range_begin = 100, range_end = 200\<rparr>, \<lparr>range_begin = 300, range_end = 400\<rparr>],
      pointers = [\<lparr>gp_addr = 10, ptr = Some (1 :: nat), gp_get = 100\<rparr>,
                  \<lparr>gp_addr = 110, ptr = Some 2, gp_get = 300\<rparr>],
      rawPointers = [], collecting = False\<rparr>"
  let ?root = "\<lparr>gp_addr = 10, ptr = Some (1 :: nat), gp_get = 100\<rparr>"
  let ?gp = "\<lparr>gp_addr = 110, ptr = Some (2 :: nat), gp_get = 300\<rparr>"
  let ?seeds = "{si \<in> set (owning_records ?g). stored_outside_closed (ranges ?g) (si_gp si)}"
  have nc: "\<not> collecting ?g" by simp
  have ok: "slots_ok ?g" by (simp add: spec_defs)
  have r0: "owning_record (ranges ?g) ?root \<in> reach (ranges ?g) (records ?g) ?seeds"
    by (rule reach.seed) (simp_all add: spec_defs stored_outside_closed_def)
  have r: "owning_record (ranges ?g) ?gp \<in> reach (ranges ?g) (records ?g) ?seeds"
    by (rule reach.step[OF r0]) (simp_all add: spec_defs)
  have "\<exists>garbage g'. collect_impl ?g = Some (Inr (garbage, g')) \<and> ?gp \<in> set (pointers g')
           \<and> ranges g' = ranges ?g"
    by (rule reachable_slot_keeps_reference[OF nc ok _ _ r]) simp_all
  then show ?thesis using nc ok r by blast
qed

subsection \<open>C2: unreachable slots hand their reference over\<close>

text \<open>
  The loop over \<^verbatim>\<open>rawPointers\<close> runs after the loop over \<^verbatim>\<open>pointers\<close> and sets the managed mark
  of the range of each of its records to false, and the sweep looks at the mark of the
  range. Here there is no root at all: the only owning slot is stored at 310 and the only
  observing slot at 320, both in the second range, and both refer into the first range. The
  mark of the first range is false after the snapshot and the batch is empty.
\<close>

theorem observed_referent_counterexample:
  "collect_impl \<lparr>ranges = [\<lparr>range_begin = 100, range_end = 200\<rparr>, \<lparr>range_begin = 300, range_end = 400\<rparr>],
      pointers = [\<lparr>gp_addr = 310, ptr = Some (1 :: nat), gp_get = 100\<rparr>],
      rawPointers = [\<lparr>rgp_addr = 320, raw_ptr = 150\<rparr>], collecting = False\<rparr>
   = Some (Inr ([], \<lparr>ranges = [\<lparr>range_begin = 100, range_end = 200\<rparr>, \<lparr>range_begin = 300, range_end = 400\<rparr>],
      pointers = [\<lparr>gp_addr = 310, ptr = Some (1 :: nat), gp_get = 100\<rparr>],
      rawPointers = [\<lparr>rgp_addr = 320, raw_ptr = 150\<rparr>], collecting = False\<rparr>))
   \<and> snapshot \<lparr>ranges = [\<lparr>range_begin = 100, range_end = 200\<rparr>, \<lparr>range_begin = 300, range_end = 400\<rparr>],
      pointers = [\<lparr>gp_addr = 310, ptr = Some (1 :: nat), gp_get = 100\<rparr>],
      rawPointers = [\<lparr>rgp_addr = 320, raw_ptr = 150\<rparr>], collecting = False\<rparr>
   = Inr \<lparr>rngs = [\<lparr>rng_begin = 100, rng_end = 200, managed = False, scanned = False\<rparr>,
                  \<lparr>rng_begin = 300, rng_end = 400, managed = False, scanned = False\<rparr>],
          info = [\<lparr>si_gp = 310, si_range = 0\<rparr>, \<lparr>si_gp = 320, si_range = 0\<rparr>],
          scan = [0, 1], keep = []\<rparr>"
  by (simp add: eval_defs)

text \<open>
  C2, amended. Here a root is a slot that the test of the code takes for one
  (\<^verbatim>\<open>find_range\<close> finds no range for the address of the slot; in an index that satisfies I1 and
  I2 that is a slot stored outside every closed interval \<open>[begin, end]\<close>, see \<open>is_root_iff\<close>),
  and a slot is kept when it is a root or is stored in \<open>[begin, end)\<close> of the range a kept
  slot, owning or observing, refers into.

  In every graph that satisfies \<open>slots_ok\<close>: with no collection in progress, \<^verbatim>\<open>collect\<close> returns,
  and the strong reference of a non-null owning slot is in the batch, and the slot left
  with the null reference, when the slot is not kept and no observing slot refers into the
  range of its referent; and the snapshot returns, and the managed mark of every range that
  no observing slot refers into is true exactly when some non-null owning slot refers into
  it.
\<close>

theorem unreachable_slot_collected:
  assumes ok: "slots_ok g"
  shows "(\<not> collecting g \<and> gp \<in> set (pointers g) \<and> ptr gp \<noteq> None
            \<and> owning_record (ranges g) gp \<notin> kept g
            \<and> list_all (\<lambda>rgp. find_range_iterator (ranges g) (raw_ptr rgp)
                                \<noteq> find_range_iterator (ranges g) (gp_get gp)) (rawPointers g)
          \<longrightarrow> (\<exists>garbage g'. collect_impl g = Some (Inr (garbage, g'))
                 \<and> ptr gp \<in> set garbage \<and> gp\<lparr>ptr := None\<rparr> \<in> set (pointers g')))
         \<and> (\<exists>tr. snapshot g = Inr tr
              \<and> (\<forall>r<length (ranges g).
                    list_all (\<lambda>rgp. find_range_iterator (ranges g) (raw_ptr rgp) \<noteq> r) (rawPointers g)
                    \<longrightarrow> (managed (rngs tr ! r) \<longleftrightarrow>
                           (\<exists>gp\<in>set (pointers g). ptr gp \<noteq> None
                               \<and> find_range_iterator (ranges g) (gp_get gp) = r))))"
proof -
  have 1: "\<exists>garbage g'. collect_impl g = Some (Inr (garbage, g'))
                 \<and> ptr gp \<in> set garbage \<and> gp\<lparr>ptr := None\<rparr> \<in> set (pointers g')"
    if nc: "\<not> collecting g" and gp: "gp \<in> set (pointers g)" and nn: "ptr gp \<noteq> None"
      and nk: "owning_record (ranges g) gp \<notin> kept g"
      and nr: "list_all (\<lambda>rgp. find_range_iterator (ranges g) (raw_ptr rgp)
                                \<noteq> find_range_iterator (ranges g) (gp_get gp)) (rawPointers g)"
  proof -
    have c: "collected g gp" using nn nk nr by (simp add: collected_def)
    then have a: "ptr gp \<in> ptr ` {gp \<in> set (pointers g). collected g gp}" using gp by blast
    have b: "gp\<lparr>ptr := None\<rparr>
        \<in> set (map (\<lambda>gp. if collected g gp then gp\<lparr>ptr := None\<rparr> else gp) (pointers g))"
      using gp c by (force simp: image_iff)
    show ?thesis using collect_impl_result[OF nc ok] a b by auto
  qed
  have n: "length (pointers g) + length (rawPointers g) \<le> 4294967296"
    using ok by (simp add: slots_ok_def)
  obtain tr where s: "snapshot g = Inr tr" using collect_trace[OF ok] by blast
  have "\<forall>r<length (ranges g).
          list_all (\<lambda>rgp. find_range_iterator (ranges g) (raw_ptr rgp) \<noteq> r) (rawPointers g)
          \<longrightarrow> (managed (rngs tr ! r) \<longleftrightarrow>
                 (\<exists>gp\<in>set (pointers g). ptr gp \<noteq> None
                     \<and> find_range_iterator (ranges g) (gp_get gp) = r))"
    using snapshot_inv[OF s n] by (auto simp: list_all_iff)
  then show ?thesis using 1 s by blast
qed

theorem unreachable_slot_collected_witness:
  "slots_ok \<lparr>ranges = [\<lparr>range_begin = 100, range_end = 200\<rparr>, \<lparr>range_begin = 300, range_end = 400\<rparr>,
                \<lparr>range_begin = 500, range_end = 600\<rparr>],
      pointers = [\<lparr>gp_addr = 310, ptr = Some (1 :: nat), gp_get = 100\<rparr>],
      rawPointers = [\<lparr>rgp_addr = 10, raw_ptr = 550\<rparr>], collecting = False\<rparr>
   \<and> \<not> collecting \<lparr>ranges = [\<lparr>range_begin = 100, range_end = 200\<rparr>, \<lparr>range_begin = 300, range_end = 400\<rparr>,
                \<lparr>range_begin = 500, range_end = 600\<rparr>],
      pointers = [\<lparr>gp_addr = 310, ptr = Some (1 :: nat), gp_get = 100\<rparr>],
      rawPointers = [\<lparr>rgp_addr = 10, raw_ptr = 550\<rparr>], collecting = False\<rparr>
   \<and> owning_record (ranges \<lparr>ranges = [\<lparr>range_begin = 100, range_end = 200\<rparr>, \<lparr>range_begin = 300, range_end = 400\<rparr>,
                \<lparr>range_begin = 500, range_end = 600\<rparr>],
      pointers = [\<lparr>gp_addr = 310, ptr = Some (1 :: nat), gp_get = 100\<rparr>],
      rawPointers = [\<lparr>rgp_addr = 10, raw_ptr = 550\<rparr>], collecting = False\<rparr>) \<lparr>gp_addr = 310, ptr = Some (1 :: nat), gp_get = 100\<rparr>
       \<notin> kept \<lparr>ranges = [\<lparr>range_begin = 100, range_end = 200\<rparr>, \<lparr>range_begin = 300, range_end = 400\<rparr>,
                \<lparr>range_begin = 500, range_end = 600\<rparr>],
      pointers = [\<lparr>gp_addr = 310, ptr = Some (1 :: nat), gp_get = 100\<rparr>],
      rawPointers = [\<lparr>rgp_addr = 10, raw_ptr = 550\<rparr>], collecting = False\<rparr>
   \<and> list_all (\<lambda>rgp. find_range_iterator (ranges \<lparr>ranges = [\<lparr>range_begin = 100, range_end = 200\<rparr>, \<lparr>range_begin = 300, range_end = 400\<rparr>,
                \<lparr>range_begin = 500, range_end = 600\<rparr>],
      pointers = [\<lparr>gp_addr = 310, ptr = Some (1 :: nat), gp_get = 100\<rparr>],
      rawPointers = [\<lparr>rgp_addr = 10, raw_ptr = 550\<rparr>], collecting = False\<rparr>) (raw_ptr rgp)
                         \<noteq> find_range_iterator (ranges \<lparr>ranges = [\<lparr>range_begin = 100, range_end = 200\<rparr>, \<lparr>range_begin = 300, range_end = 400\<rparr>,
                \<lparr>range_begin = 500, range_end = 600\<rparr>],
      pointers = [\<lparr>gp_addr = 310, ptr = Some (1 :: nat), gp_get = 100\<rparr>],
      rawPointers = [\<lparr>rgp_addr = 10, raw_ptr = 550\<rparr>], collecting = False\<rparr>) 100)
        (rawPointers \<lparr>ranges = [\<lparr>range_begin = 100, range_end = 200\<rparr>, \<lparr>range_begin = 300, range_end = 400\<rparr>,
                \<lparr>range_begin = 500, range_end = 600\<rparr>],
      pointers = [\<lparr>gp_addr = 310, ptr = Some (1 :: nat), gp_get = 100\<rparr>],
      rawPointers = [\<lparr>rgp_addr = 10, raw_ptr = 550\<rparr>], collecting = False\<rparr>)
   \<and> (\<exists>garbage g'. collect_impl \<lparr>ranges = [\<lparr>range_begin = 100, range_end = 200\<rparr>, \<lparr>range_begin = 300, range_end = 400\<rparr>,
                \<lparr>range_begin = 500, range_end = 600\<rparr>],
      pointers = [\<lparr>gp_addr = 310, ptr = Some (1 :: nat), gp_get = 100\<rparr>],
      rawPointers = [\<lparr>rgp_addr = 10, raw_ptr = 550\<rparr>], collecting = False\<rparr> = Some (Inr (garbage, g')) \<and> Some 1 \<in> set garbage
         \<and> \<lparr>gp_addr = 310, ptr = None, gp_get = 100\<rparr> \<in> set (pointers g'))
   \<and> (\<exists>tr. snapshot \<lparr>ranges = [\<lparr>range_begin = 100, range_end = 200\<rparr>, \<lparr>range_begin = 300, range_end = 400\<rparr>,
                \<lparr>range_begin = 500, range_end = 600\<rparr>],
      pointers = [\<lparr>gp_addr = 310, ptr = Some (1 :: nat), gp_get = 100\<rparr>],
      rawPointers = [\<lparr>rgp_addr = 10, raw_ptr = 550\<rparr>], collecting = False\<rparr> = Inr tr
         \<and> managed (rngs tr ! 0) \<and> \<not> managed (rngs tr ! 1))"
proof -
  let ?g = "\<lparr>ranges = [\<lparr>range_begin = 100, range_end = 200\<rparr>, \<lparr>range_begin = 300, range_end = 400\<rparr>,
                \<lparr>range_begin = 500, range_end = 600\<rparr>],
      pointers = [\<lparr>gp_addr = 310, ptr = Some (1 :: nat), gp_get = 100\<rparr>],
      rawPointers = [\<lparr>rgp_addr = 10, raw_ptr = 550\<rparr>], collecting = False\<rparr>"
  let ?gp = "\<lparr>gp_addr = 310, ptr = Some (1 :: nat), gp_get = 100\<rparr>"
  have nc: "\<not> collecting ?g" by simp
  have ok: "slots_ok ?g" by (simp add: spec_defs)
  have recs: "records ?g = [\<lparr>si_gp = 310, si_range = 0\<rparr>, \<lparr>si_gp = 10, si_range = 2\<rparr>]"
    by (simp add: spec_defs)
  have only: "si \<in> kept ?g \<Longrightarrow> si = \<lparr>si_gp = 10, si_range = 2\<rparr>" for si
    unfolding kept_def recs
    by (induction rule: reach.induct) (auto simp: spec_defs)
  have nk: "owning_record (ranges ?g) ?gp \<notin> kept ?g"
  proof
    assume "owning_record (ranges ?g) ?gp \<in> kept ?g"
    from only[OF this] show False by (simp add: owning_record_def)
  qed
  have nr: "list_all (\<lambda>rgp. find_range_iterator (ranges ?g) (raw_ptr rgp)
                         \<noteq> find_range_iterator (ranges ?g) (gp_get ?gp)) (rawPointers ?g)"
    by (simp add: spec_defs)
  note t = unreachable_slot_collected[OF ok, of ?gp]
  have 1: "\<exists>garbage g'. collect_impl ?g = Some (Inr (garbage, g')) \<and> ptr ?gp \<in> set garbage
      \<and> ?gp\<lparr>ptr := None\<rparr> \<in> set (pointers g')"
    using t nc nk nr by simp
  obtain tr where s: "snapshot ?g = Inr tr"
    and m: "\<forall>r<length (ranges ?g).
                    list_all (\<lambda>rgp. find_range_iterator (ranges ?g) (raw_ptr rgp) \<noteq> r) (rawPointers ?g)
                    \<longrightarrow> (managed (rngs tr ! r) \<longleftrightarrow>
                           (\<exists>gp\<in>set (pointers ?g). ptr gp \<noteq> None
                               \<and> find_range_iterator (ranges ?g) (gp_get gp) = r))"
    using t by blast
  have "managed (rngs tr ! 0)" using m[rule_format, of 0] by (simp add: spec_defs)
  moreover have "\<not> managed (rngs tr ! 1)" using m[rule_format, of 1] by (simp add: spec_defs)
  ultimately have 2: "\<exists>tr. snapshot ?g = Inr tr \<and> managed (rngs tr ! 0) \<and> \<not> managed (rngs tr ! 1)"
    using s by blast
  show ?thesis using ok nc nk nr 1 2 by simp
qed

subsection \<open>C5: observing slots hand nothing over\<close>




subsection \<open>C10: a slot stored at the end of a range\<close>

text \<open>
  C10. In a graph that satisfies \<open>slots_ok\<close> and whose index satisfies I1 and I2, take a record
  of the snapshot whose slot is stored at the end address of a range \<open>R\<close> and inside the
  half-open interval of no range. \<^verbatim>\<open>find_range\<close> attributes the address to \<open>R\<close> (inclusive upper
  bound), so the snapshot puts the record in \<^verbatim>\<open>scan\<close>, not in \<^verbatim>\<open>keep\<close>; and the mark phase, whose
  test is on \<open>[begin, end)\<close>, leaves it in \<^verbatim>\<open>scan\<close>, whatever is kept.
\<close>

theorem end_slot_stays_in_scan:
  assumes ok: "slots_ok g" and iok: "index_ok (ranges g)"
    and R: "R \<in> set (ranges g)" and si: "si \<in> set (records g)"
    and e: "si_gp si = range_end R"
    and out: "\<forall>r\<in>set (ranges g). \<not> (range_begin r \<le> si_gp si \<and> si_gp si < range_end r)"
  shows "find_range (ranges g) (si_gp si) = Some R
         \<and> (\<exists>tr tr'. snapshot g = Inr tr \<and> mark tr = Some tr'
               \<and> (\<exists>idx<length (info tr). info tr ! idx = si)
               \<and> (\<forall>idx<length (info tr). info tr ! idx = si \<longrightarrow>
                     idx \<notin> set (keep tr) \<and> idx \<in> set (scan tr)
                     \<and> idx \<notin> set (keep tr') \<and> idx \<in> set (scan tr')))"
proof -
  let ?rs = "ranges g"
  let ?a = "si_gp si"
  obtain k where k: "k < length ?rs" "?rs ! k = R" using R by (auto simp: in_set_conv_nth)
  have ne: "range_begin R < range_end R" using index_ok_nth_nonempty[OF iok k(1)] k(2) by simp
  then have a0: "?a \<noteq> 0" and lo: "range_begin (?rs ! k) \<le> ?a" and hi: "?a \<le> range_end (?rs ! k)"
    using e k(2) by simp_all
  have "\<forall>j<length ?rs. j \<noteq> k \<longrightarrow> \<not> (range_begin (?rs ! j) \<le> ?a \<and> ?a < range_end (?rs ! j))"
    using out by simp
  then have "find_range_iterator ?rs ?a = k" using fri_unique[OF iok a0 k(1) lo hi] by simp
  then have fr: "find_range ?rs ?a = Some R" using k by (simp add: find_range_def)
  then have nroot: "\<not> is_root ?rs si" by (simp add: is_root_def)
  have nk: "si \<notin> kept g"
  proof
    assume "si \<in> kept g"
    then show False unfolding kept_def
    proof (cases rule: reach.cases)
      case seed
      then show False using nroot by simp
    next
      case (step p)
      have "p \<in> set (records g)" using step(1) by (cases rule: reach.cases) simp_all
      moreover obtain tr where "snapshot g = Inr tr" "info tr = records g" "snap_inv ?rs tr"
        using collect_trace[OF ok] by blast
      ultimately have "si_range p < length ?rs" by (simp add: snap_inv_def)
      then have "?rs ! si_range p \<in> set ?rs" by simp
      then show False using out step(3,4) by blast
    qed
  qed
  obtain tr tr' where s: "snapshot g = Inr tr" and m: "mark tr = Some tr'"
    and i: "info tr = records g"
    and inv: "snap_inv ?rs tr"
    and cover': "set (keep tr') \<union> set (scan tr') = {..<length (records g)}"
    and kk: "\<forall>idx\<in>set (keep tr'). records g ! idx \<in> kept g"
    using collect_trace[OF ok] by blast
  have cover: "set (keep tr) \<union> set (scan tr) = {..<length (info tr)}"
    and kr: "\<forall>idx\<in>set (keep tr). is_root ?rs (info tr ! idx)"
    using inv by (simp_all add: snap_inv_def)
  have ex: "\<exists>idx<length (info tr). info tr ! idx = si"
    using si i by (simp add: in_set_conv_nth)
  have all: "idx \<notin> set (keep tr) \<and> idx \<in> set (scan tr) \<and> idx \<notin> set (keep tr') \<and> idx \<in> set (scan tr')"
    if l: "idx < length (info tr)" and eq: "info tr ! idx = si" for idx
  proof -
    have 1: "idx \<notin> set (keep tr)" using kr eq nroot by auto
    then have 2: "idx \<in> set (scan tr)" using cover l by blast
    have 3: "idx \<notin> set (keep tr')" using kk eq i nk by auto
    then have 4: "idx \<in> set (scan tr')" using cover' l i by auto
    show ?thesis using 1 2 3 4 by simp
  qed
  show ?thesis using fr s m ex all by blast
qed

theorem end_slot_stays_in_scan_witness:
  "slots_ok \<lparr>ranges = [\<lparr>range_begin = 100, range_end = 200\<rparr>, \<lparr>range_begin = 300, range_end = 400\<rparr>],
      pointers = [\<lparr>gp_addr = 10, ptr = Some (1 :: nat), gp_get = 100\<rparr>,
                  \<lparr>gp_addr = 200, ptr = Some 2, gp_get = 300\<rparr>],
      rawPointers = [], collecting = False\<rparr>
   \<and> index_ok (ranges \<lparr>ranges = [\<lparr>range_begin = 100, range_end = 200\<rparr>, \<lparr>range_begin = 300, range_end = 400\<rparr>],
      pointers = [\<lparr>gp_addr = 10, ptr = Some (1 :: nat), gp_get = 100\<rparr>,
                  \<lparr>gp_addr = 200, ptr = Some 2, gp_get = 300\<rparr>],
      rawPointers = [], collecting = False\<rparr>)
   \<and> \<lparr>range_begin = 100, range_end = 200\<rparr> \<in> set (ranges \<lparr>ranges = [\<lparr>range_begin = 100, range_end = 200\<rparr>, \<lparr>range_begin = 300, range_end = 400\<rparr>],
      pointers = [\<lparr>gp_addr = 10, ptr = Some (1 :: nat), gp_get = 100\<rparr>,
                  \<lparr>gp_addr = 200, ptr = Some 2, gp_get = 300\<rparr>],
      rawPointers = [], collecting = False\<rparr>)
   \<and> \<lparr>si_gp = 200, si_range = 1\<rparr> \<in> set (records \<lparr>ranges = [\<lparr>range_begin = 100, range_end = 200\<rparr>, \<lparr>range_begin = 300, range_end = 400\<rparr>],
      pointers = [\<lparr>gp_addr = 10, ptr = Some (1 :: nat), gp_get = 100\<rparr>,
                  \<lparr>gp_addr = 200, ptr = Some 2, gp_get = 300\<rparr>],
      rawPointers = [], collecting = False\<rparr>)
   \<and> si_gp \<lparr>si_gp = 200, si_range = 1\<rparr> = range_end \<lparr>range_begin = 100, range_end = 200\<rparr>
   \<and> find_range (ranges \<lparr>ranges = [\<lparr>range_begin = 100, range_end = 200\<rparr>, \<lparr>range_begin = 300, range_end = 400\<rparr>],
      pointers = [\<lparr>gp_addr = 10, ptr = Some (1 :: nat), gp_get = 100\<rparr>,
                  \<lparr>gp_addr = 200, ptr = Some 2, gp_get = 300\<rparr>],
      rawPointers = [], collecting = False\<rparr>) 200 = Some \<lparr>range_begin = 100, range_end = 200\<rparr>
   \<and> (\<exists>tr tr'. snapshot \<lparr>ranges = [\<lparr>range_begin = 100, range_end = 200\<rparr>, \<lparr>range_begin = 300, range_end = 400\<rparr>],
      pointers = [\<lparr>gp_addr = 10, ptr = Some (1 :: nat), gp_get = 100\<rparr>,
                  \<lparr>gp_addr = 200, ptr = Some 2, gp_get = 300\<rparr>],
      rawPointers = [], collecting = False\<rparr> = Inr tr \<and> mark tr = Some tr'
         \<and> 1 \<in> set (scan tr) \<and> 1 \<in> set (scan tr') \<and> 0 \<in> set (keep tr'))"
proof -
  let ?g = "\<lparr>ranges = [\<lparr>range_begin = 100, range_end = 200\<rparr>, \<lparr>range_begin = 300, range_end = 400\<rparr>],
      pointers = [\<lparr>gp_addr = 10, ptr = Some (1 :: nat), gp_get = 100\<rparr>,
                  \<lparr>gp_addr = 200, ptr = Some 2, gp_get = 300\<rparr>],
      rawPointers = [], collecting = False\<rparr>"
  let ?R = "\<lparr>range_begin = 100, range_end = 200\<rparr>"
  let ?si = "\<lparr>si_gp = 200, si_range = 1\<rparr>"
  have ok: "slots_ok ?g" by (simp add: spec_defs)
  have iok: "index_ok (ranges ?g)" by (simp add: index_ok_def)
  have R: "?R \<in> set (ranges ?g)" by simp
  have recs: "records ?g = [\<lparr>si_gp = 10, si_range = 0\<rparr>, ?si]" by (simp add: spec_defs)
  then have si: "?si \<in> set (records ?g)" by simp
  have e: "si_gp ?si = range_end ?R" by simp
  have out: "\<forall>r\<in>set (ranges ?g). \<not> (range_begin r \<le> si_gp ?si \<and> si_gp ?si < range_end r)" by simp
  from end_slot_stays_in_scan[OF ok iok R si e out] obtain tr tr' where
    fr: "find_range (ranges ?g) (si_gp ?si) = Some ?R"
    and s: "snapshot ?g = Inr tr" and m: "mark tr = Some tr'"
    and a: "\<forall>idx<length (info tr). info tr ! idx = ?si \<longrightarrow>
                     idx \<notin> set (keep tr) \<and> idx \<in> set (scan tr)
                     \<and> idx \<notin> set (keep tr') \<and> idx \<in> set (scan tr')"
    by blast
  have tr: "tr = \<lparr>rngs = [\<lparr>rng_begin = 100, rng_end = 200, managed = True, scanned = False\<rparr>,
                          \<lparr>rng_begin = 300, rng_end = 400, managed = True, scanned = False\<rparr>],
                  info = [\<lparr>si_gp = 10, si_range = 0\<rparr>, ?si], scan = [1], keep = [0]\<rparr>"
    using s by (simp add: eval_defs)
  then have "1 \<in> set (scan tr) \<and> 1 \<in> set (scan tr')" using a by simp
  moreover have "0 \<in> set (keep tr')" using m unfolding tr by (auto simp: eval_defs)
  ultimately show ?thesis using ok iok R si fr s m by auto
qed

end
